theory Spec2Isabelle
  imports Main "HOL-Library.Monad_Syntax"
begin

section \<open>Memory model\<close>

text \<open>
  Nodes live in a store that maps addresses to node records. A pointer is an
  optional address, \<open>None\<close> being \<open>NULL\<close>. Every function that dereferences a
  pointer returns an option: \<open>None\<close> stands for undefined behaviour of the C++
  program (a dereference of \<open>NULL\<close> or of an address that holds no node, a write
  past the end of the query stack) or for a loop that never ends.

  \<open>_balance\<close> is a C++ \<open>int\<close>. On the nodes of a tree it stays within
  \<open>{-2..2}\<close>; only the header's balance, which nothing reads, drifts. It is
  modelled by an unbounded integer.
\<close>

type_synonym addr = nat
type_synonym ptr = "addr option"

record ('k, 'v) node =
  parent :: ptr
  left :: ptr
  right :: ptr
  balance :: int
  val :: "'k \<times> 'v"

type_synonym ('k, 'v) store = "addr \<Rightarrow> ('k, 'v) node option"

definition deref :: "('k, 'v) store \<Rightarrow> ptr \<Rightarrow> ('k, 'v) node option" where
  "deref h p = (case p of None \<Rightarrow> None | Some a \<Rightarrow> h a)"

definition get :: "(('k, 'v) node \<Rightarrow> 'a) \<Rightarrow> ('k, 'v) store \<Rightarrow> ptr \<Rightarrow> 'a option" where
  "get f h p = map_option f (deref h p)"

definition modify :: "ptr \<Rightarrow> (('k, 'v) node \<Rightarrow> ('k, 'v) node) \<Rightarrow> ('k, 'v) store
    \<Rightarrow> ('k, 'v) store option" where
  "modify p f h = (case deref h p of None \<Rightarrow> None | Some n \<Rightarrow> Some (h(the p \<mapsto> f n)))"

section \<open>Iterator steps of the AVL tree (avl\_tree.hpp)\<close>

text \<open>\<open>_avl_tree_decrement\<close>: the two loops and the function.\<close>

partial_function (option) decrement_down :: "('k, 'v) store \<Rightarrow> ptr \<Rightarrow> ptr option" where
  "decrement_down h y = do {
     yr \<leftarrow> get right h y;
     if yr \<noteq> None then decrement_down h yr else Some y }"

declare decrement_down.simps [code]

partial_function (option) decrement_up :: "('k, 'v) store \<Rightarrow> ptr \<Rightarrow> ptr \<Rightarrow> ptr option" where
  "decrement_up h x y = do {
     yl \<leftarrow> get left h y;
     if x = yl then do { yp \<leftarrow> get parent h y; decrement_up h y yp } else Some y }"

declare decrement_up.simps [code]

definition avl_tree_decrement :: "('k, 'v) store \<Rightarrow> ptr \<Rightarrow> ptr option" where
  "avl_tree_decrement h x = do {
     xl \<leftarrow> get left h x;
     if xl \<noteq> None then decrement_down h xl
     else do { y \<leftarrow> get parent h x; decrement_up h x y } }"

text \<open>\<open>_avl_tree_increment\<close>.\<close>

partial_function (option) increment_down :: "('k, 'v) store \<Rightarrow> ptr \<Rightarrow> ptr option" where
  "increment_down h x = do {
     xl \<leftarrow> get left h x;
     if xl \<noteq> None then increment_down h xl else Some x }"

declare increment_down.simps [code]

partial_function (option) increment_up :: "('k, 'v) store \<Rightarrow> ptr \<Rightarrow> ptr \<Rightarrow> (ptr \<times> ptr) option"
  where
  "increment_up h x y = do {
     yr \<leftarrow> get right h y;
     if x = yr then do { yp \<leftarrow> get parent h y; increment_up h y yp } else Some (x, y) }"

declare increment_up.simps [code]

definition avl_tree_increment :: "('k, 'v) store \<Rightarrow> ptr \<Rightarrow> ptr option" where
  "avl_tree_increment h x = do {
     xr \<leftarrow> get right h x;
     if xr \<noteq> None then increment_down h xr
     else do {
       y \<leftarrow> get parent h x;
       (x, y) \<leftarrow> increment_up h x y;
       xr \<leftarrow> get right h x;
       if xr \<noteq> y then Some y else Some x } }"

section \<open>Rotations and the balance updater of the plain tree\<close>

text \<open>
  \<open>AVL::rotation::left\<close> and \<open>right\<close>. The reference parameter \<open>root\<close> is always
  bound to \<open>_header._parent\<close>; the model takes the header's address \<open>H\<close> and reads
  and writes the root through it.
\<close>

definition rotation_left :: "ptr \<Rightarrow> addr \<Rightarrow> ('k, 'v) store \<Rightarrow> ('k, 'v) store option" where
  "rotation_left x H h = do {
     y \<leftarrow> get right h x;
     yl \<leftarrow> get left h y;
     h \<leftarrow> modify x (\<lambda>n. n\<lparr>right := yl\<rparr>) h;
     yl \<leftarrow> get left h y;
     h \<leftarrow> (if yl \<noteq> None then modify yl (\<lambda>n. n\<lparr>parent := x\<rparr>) h else Some h);
     xp \<leftarrow> get parent h x;
     h \<leftarrow> modify y (\<lambda>n. n\<lparr>parent := xp\<rparr>) h;
     root \<leftarrow> get parent h (Some H);
     h \<leftarrow> (if x = root then modify (Some H) (\<lambda>n. n\<lparr>parent := y\<rparr>) h
          else do {
            xp \<leftarrow> get parent h x;
            xpl \<leftarrow> get left h xp;
            if x = xpl then modify xp (\<lambda>n. n\<lparr>left := y\<rparr>) h
            else modify xp (\<lambda>n. n\<lparr>right := y\<rparr>) h });
     h \<leftarrow> modify y (\<lambda>n. n\<lparr>left := x\<rparr>) h;
     modify x (\<lambda>n. n\<lparr>parent := y\<rparr>) h }"

definition rotation_right :: "ptr \<Rightarrow> addr \<Rightarrow> ('k, 'v) store \<Rightarrow> ('k, 'v) store option" where
  "rotation_right x H h = do {
     y \<leftarrow> get left h x;
     yr \<leftarrow> get right h y;
     h \<leftarrow> modify x (\<lambda>n. n\<lparr>left := yr\<rparr>) h;
     yr \<leftarrow> get right h y;
     h \<leftarrow> (if yr \<noteq> None then modify yr (\<lambda>n. n\<lparr>parent := x\<rparr>) h else Some h);
     xp \<leftarrow> get parent h x;
     h \<leftarrow> modify y (\<lambda>n. n\<lparr>parent := xp\<rparr>) h;
     root \<leftarrow> get parent h (Some H);
     h \<leftarrow> (if x = root then modify (Some H) (\<lambda>n. n\<lparr>parent := y\<rparr>) h
          else do {
            xp \<leftarrow> get parent h x;
            xpr \<leftarrow> get right h xp;
            if x = xpr then modify xp (\<lambda>n. n\<lparr>right := y\<rparr>) h
            else modify xp (\<lambda>n. n\<lparr>left := y\<rparr>) h });
     h \<leftarrow> modify y (\<lambda>n. n\<lparr>right := x\<rparr>) h;
     modify x (\<lambda>n. n\<lparr>parent := y\<rparr>) h }"

text \<open>\<open>AVL::updater::update\<close>: walk from the new leaf up to \<open>unbalanced\<close>.\<close>

partial_function (option) avl_update :: "ptr \<Rightarrow> ptr \<Rightarrow> addr \<Rightarrow> ('k, 'v) store
    \<Rightarrow> ('k, 'v) store option" where
  "avl_update leaf unbalanced H h = do {
     p \<leftarrow> get parent h leaf;
     pl \<leftarrow> get left h p;
     h \<leftarrow> (if pl = leaf then modify p (\<lambda>n. n\<lparr>balance := balance n - 1\<rparr>) h
          else modify p (\<lambda>n. n\<lparr>balance := balance n + 1\<rparr>) h);
     if p = unbalanced then Some h else avl_update p unbalanced H h }"

declare avl_update.simps [code]

text \<open>
  The template parameters \<open>Rotation\<close> and \<open>Updater\<close> of \<open>avl_tree\<close> are passed
  as a record of functions.
\<close>

record ('k, 'v) policy =
  rotate_left :: "ptr \<Rightarrow> addr \<Rightarrow> ('k, 'v) store \<Rightarrow> ('k, 'v) store option"
  rotate_right :: "ptr \<Rightarrow> addr \<Rightarrow> ('k, 'v) store \<Rightarrow> ('k, 'v) store option"
  update :: "ptr \<Rightarrow> ptr \<Rightarrow> addr \<Rightarrow> ('k, 'v) store \<Rightarrow> ('k, 'v) store option"

definition avl_policy :: "('k, 'v) policy" where
  "avl_policy = \<lparr>rotate_left = rotation_left, rotate_right = rotation_right,
     update = avl_update\<rparr>"

section \<open>The AVL tree\<close>

text \<open>
  A tree object: the store its nodes live in, the address of its \<open>_header\<close>
  node, \<open>_node_count\<close>, and the allocator, which hands out the addresses
  \<open>alloc\<close>, \<open>alloc + 1\<close>, ... in turn.
\<close>

record ('k, 'v) avl_tree =
  store :: "('k, 'v) store"
  header :: addr
  node_count :: nat
  alloc :: addr

text \<open>
  The default constructor. The header's \<open>_value\<close> is default-constructed
  (\<open>v0\<close>); \<open>_node_count\<close> is left uninitialised by the source, \<open>c0\<close> stands for
  the value it happens to hold.
\<close>

definition avl_tree_init :: "addr \<Rightarrow> 'k \<times> 'v \<Rightarrow> nat \<Rightarrow> ('k, 'v) avl_tree" where
  "avl_tree_init H v0 c0 =
     \<lparr>store = (\<lambda>_. None)(H \<mapsto> \<lparr>parent = None, left = Some H, right = Some H, balance = 0,
        val = v0\<rparr>),
      header = H, node_count = c0, alloc = Suc H\<rparr>"

definition begin_it :: "('k, 'v) avl_tree \<Rightarrow> ptr option" where
  "begin_it t = get left (store t) (Some (header t))"

definition end_it :: "('k, 'v) avl_tree \<Rightarrow> ptr" where
  "end_it t = Some (header t)"

text \<open>\<open>avl_tree::find\<close>.\<close>

partial_function (option) find_loop :: "('k \<Rightarrow> 'k \<Rightarrow> bool) \<Rightarrow> ('k, 'v) store \<Rightarrow> 'k \<Rightarrow> ptr
    \<Rightarrow> ptr \<Rightarrow> ptr option" where
  "find_loop compare h k x y =
     (if x \<noteq> None then do {
        n \<leftarrow> deref h x;
        if \<not> compare (fst (val n)) k then find_loop compare h k (left n) x
        else find_loop compare h k (right n) y }
      else Some y)"

declare find_loop.simps [code]

definition find :: "('k \<Rightarrow> 'k \<Rightarrow> bool) \<Rightarrow> ('k, 'v) avl_tree \<Rightarrow> 'k \<Rightarrow> ptr option" where
  "find compare t k = do {
     x \<leftarrow> get parent (store t) (Some (header t));
     j \<leftarrow> find_loop compare (store t) k x (end_it t);
     if j = end_it t then Some (end_it t)
     else do {
       nj \<leftarrow> deref (store t) j;
       if compare k (fst (val nj)) then Some (end_it t) else Some j } }"

text \<open>\<open>avl_tree::_rebalance\<close>.\<close>

definition rebalance :: "('k, 'v) policy \<Rightarrow> ptr \<Rightarrow> addr \<Rightarrow> ('k, 'v) store
    \<Rightarrow> ('k, 'v) store option" where
  "rebalance pol unbalanced H h = do {
     b \<leftarrow> get balance h unbalanced;
     if b = 1 \<or> b = -1 \<or> b = 0 then Some h
     else if b = 2 then do {
       r \<leftarrow> get right h unbalanced;
       rb \<leftarrow> get balance h r;
       h \<leftarrow> (if rb = 1 then do {
              h \<leftarrow> modify unbalanced (\<lambda>n. n\<lparr>balance := 0\<rparr>) h;
              modify r (\<lambda>n. n\<lparr>balance := 0\<rparr>) h }
            else do {
              rl \<leftarrow> get left h r;
              rlb \<leftarrow> get balance h rl;
              h \<leftarrow> (if rlb = 1 then do {
                     h \<leftarrow> modify unbalanced (\<lambda>n. n\<lparr>balance := -1\<rparr>) h;
                     modify r (\<lambda>n. n\<lparr>balance := 0\<rparr>) h }
                   else if rlb = 0 then do {
                     h \<leftarrow> modify unbalanced (\<lambda>n. n\<lparr>balance := 0\<rparr>) h;
                     modify r (\<lambda>n. n\<lparr>balance := 0\<rparr>) h }
                   else if rlb = -1 then do {
                     h \<leftarrow> modify unbalanced (\<lambda>n. n\<lparr>balance := 0\<rparr>) h;
                     modify r (\<lambda>n. n\<lparr>balance := 1\<rparr>) h }
                   else Some h);
              rl \<leftarrow> get left h r;
              h \<leftarrow> modify rl (\<lambda>n. n\<lparr>balance := 0\<rparr>) h;
              rotate_right pol r H h });
       rotate_left pol unbalanced H h }
     else if b = -2 then do {
       l \<leftarrow> get left h unbalanced;
       lb \<leftarrow> get balance h l;
       h \<leftarrow> (if lb = -1 then do {
              h \<leftarrow> modify unbalanced (\<lambda>n. n\<lparr>balance := 0\<rparr>) h;
              modify l (\<lambda>n. n\<lparr>balance := 0\<rparr>) h }
            else do {
              lr \<leftarrow> get right h l;
              lrb \<leftarrow> get balance h lr;
              h \<leftarrow> (if lrb = 1 then do {
                     h \<leftarrow> modify unbalanced (\<lambda>n. n\<lparr>balance := 0\<rparr>) h;
                     modify l (\<lambda>n. n\<lparr>balance := -1\<rparr>) h }
                   else if lrb = 0 then do {
                     h \<leftarrow> modify unbalanced (\<lambda>n. n\<lparr>balance := 0\<rparr>) h;
                     modify l (\<lambda>n. n\<lparr>balance := 0\<rparr>) h }
                   else if lrb = -1 then do {
                     h \<leftarrow> modify unbalanced (\<lambda>n. n\<lparr>balance := 1\<rparr>) h;
                     modify l (\<lambda>n. n\<lparr>balance := 0\<rparr>) h }
                   else Some h);
              lr \<leftarrow> get right h l;
              h \<leftarrow> modify lr (\<lambda>n. n\<lparr>balance := 0\<rparr>) h;
              rotate_left pol l H h });
       rotate_right pol unbalanced H h }
     else Some h }"

text \<open>
  The calls of \<open>Rotation::left\<close> and \<open>Rotation::right\<close> that \<open>_rebalance\<close> makes on the
  store \<open>h\<close>, in order: its \<open>switch\<close> without the balance assignments.
\<close>

datatype rot = Rot_left | Rot_right

definition rebalance_rotations :: "ptr \<Rightarrow> ('k, 'v) store \<Rightarrow> (rot \<times> ptr) list option" where
  "rebalance_rotations unbalanced h = do {
     b \<leftarrow> get balance h unbalanced;
     if b = 2 then do {
       r \<leftarrow> get right h unbalanced;
       rb \<leftarrow> get balance h r;
       if rb = 1 then Some [(Rot_left, unbalanced)]
       else Some [(Rot_right, r), (Rot_left, unbalanced)] }
     else if b = -2 then do {
       l \<leftarrow> get left h unbalanced;
       lb \<leftarrow> get balance h l;
       if lb = -1 then Some [(Rot_right, unbalanced)]
       else Some [(Rot_left, l), (Rot_right, unbalanced)] }
     else Some [] }"

fun run_rotations :: "('k, 'v) policy \<Rightarrow> addr \<Rightarrow> (rot \<times> ptr) list \<Rightarrow> ('k, 'v) store
    \<Rightarrow> ('k, 'v) store option" where
  "run_rotations pol H [] h = Some h"
| "run_rotations pol H ((Rot_left, x) # rs) h = do {
     h \<leftarrow> rotate_left pol x H h; run_rotations pol H rs h }"
| "run_rotations pol H ((Rot_right, x) # rs) h = do {
     h \<leftarrow> rotate_right pol x H h; run_rotations pol H rs h }"

text \<open>
  \<open>avl_tree::_insert\<close>: allocate the leaf, link it below \<open>p\<close> and maintain
  the header (\<open>link_leaf\<close>), update the balances, rebalance.
\<close>

definition link_leaf :: "bool \<Rightarrow> ptr \<Rightarrow> ptr \<Rightarrow> addr \<Rightarrow> ('k, 'v) store
    \<Rightarrow> ('k, 'v) store option" where
  "link_leaf insert_left p leaf H h =
     (if p = Some H \<or> insert_left then do {
        h \<leftarrow> modify p (\<lambda>n. n\<lparr>left := leaf\<rparr>) h;
        if p = Some H then modify (Some H) (\<lambda>n. n\<lparr>parent := leaf, right := leaf\<rparr>) h
        else do {
          hl \<leftarrow> get left h (Some H);
          if p = hl then modify (Some H) (\<lambda>n. n\<lparr>left := leaf\<rparr>) h else Some h } }
      else do {
        h \<leftarrow> modify p (\<lambda>n. n\<lparr>right := leaf\<rparr>) h;
        hr \<leftarrow> get right h (Some H);
        if p = hr then modify (Some H) (\<lambda>n. n\<lparr>right := leaf\<rparr>) h else Some h })"

definition insert_leaf :: "('k, 'v) policy \<Rightarrow> bool \<Rightarrow> ptr \<Rightarrow> 'k \<times> 'v \<Rightarrow> ptr
    \<Rightarrow> ('k, 'v) avl_tree \<Rightarrow> (('k, 'v) avl_tree \<times> ptr) option" where
  "insert_leaf pol insert_left p v unbalanced t = do {
     let H = header t;
     let leaf = Some (alloc t);
     let h = (store t)(alloc t \<mapsto>
               \<lparr>parent = p, left = None, right = None, balance = 0, val = v\<rparr>);
     h \<leftarrow> link_leaf insert_left p leaf H h;
     h \<leftarrow> update pol leaf unbalanced H h;
     h \<leftarrow> (if unbalanced \<noteq> Some H then rebalance pol unbalanced H h else Some h);
     Some (t\<lparr>store := h, node_count := node_count t + 1, alloc := Suc (alloc t)\<rparr>, leaf) }"

text \<open>\<open>avl_tree::insert\<close>: the descent, then the test against the predecessor.\<close>

partial_function (option) insert_loop :: "('k \<Rightarrow> 'k \<Rightarrow> bool) \<Rightarrow> ('k, 'v) store \<Rightarrow> 'k \<Rightarrow> ptr
    \<Rightarrow> ptr \<Rightarrow> ptr \<Rightarrow> bool \<Rightarrow> (ptr \<times> ptr \<times> bool) option" where
  "insert_loop compare h k x y unbalanced cmp =
     (if x \<noteq> None then do {
        n \<leftarrow> deref h x;
        let unbalanced = (if balance n \<noteq> 0 then x else unbalanced);
        let cmp = compare k (fst (val n));
        insert_loop compare h k (if cmp then left n else right n) x unbalanced cmp }
      else Some (y, unbalanced, cmp))"

declare insert_loop.simps [code]

definition avl_insert :: "('k \<Rightarrow> 'k \<Rightarrow> bool) \<Rightarrow> ('k, 'v) policy \<Rightarrow> 'k \<times> 'v
    \<Rightarrow> ('k, 'v) avl_tree \<Rightarrow> (('k, 'v) avl_tree \<times> ptr \<times> bool) option" where
  "avl_insert compare pol v t = do {
     x \<leftarrow> get parent (store t) (Some (header t));
     (y, unbalanced, cmp) \<leftarrow>
        insert_loop compare (store t) (fst v) x (end_it t) (end_it t) True;
     b \<leftarrow> begin_it t;
     if cmp \<and> y = b then do {
       (t', leaf) \<leftarrow> insert_leaf pol cmp y v unbalanced t;
       Some (t', leaf, True) }
     else do {
       j \<leftarrow> (if cmp then avl_tree_decrement (store t) y else Some y);
       nj \<leftarrow> deref (store t) j;
       if compare (fst (val nj)) (fst v) then do {
         (t', leaf) \<leftarrow> insert_leaf pol cmp y v unbalanced t;
         Some (t', leaf, True) }
       else Some (t, j, False) } }"


text \<open>
  The in-order walk a client makes: from \<open>begin()\<close>, \<open>++\<close> until \<open>end()\<close>,
  reading each entry.
\<close>

partial_function (option) traverse :: "('k, 'v) store \<Rightarrow> ptr \<Rightarrow> ptr \<Rightarrow> ('k \<times> 'v) list option"
  where
  "traverse h x e =
     (if x = e then Some []
      else do {
        n \<leftarrow> deref h x;
        x' \<leftarrow> avl_tree_increment h x;
        rest \<leftarrow> traverse h x' e;
        Some (val n # rest) })"

declare traverse.simps [code]

definition inorder_walk :: "('k, 'v) avl_tree \<Rightarrow> ('k \<times> 'v) list option" where
  "inorder_walk t = do { b \<leftarrow> begin_it t; traverse (store t) b (end_it t) }"

text \<open>
  The copy constructor with \<open>_clone_node\<close> and \<open>_copy\<close>. \<open>_copy\<close> calls itself
  from inside its loop; \<open>Copy x p\<close> is a call of \<open>_copy(x, p)\<close> and \<open>Spine x p\<close>
  is its \<open>while\<close> loop entered with these values of \<open>x\<close> and \<open>p\<close>. The clone's
  \<open>_parent\<close>, which \<open>_clone_node\<close> leaves unset and every caller assigns at
  once, starts as \<open>NULL\<close>. The new tree object is placed at the next free
  address.
\<close>

definition clone_node :: "ptr \<Rightarrow> ('k, 'v) store \<times> addr \<Rightarrow> (ptr \<times> ('k, 'v) store \<times> addr) option"
  where
  "clone_node x s = do {
     n \<leftarrow> deref (fst s) x;
     Some (Some (snd s),
       (fst s)(snd s \<mapsto> \<lparr>parent = None, left = None, right = None, balance = balance n,
          val = val n\<rparr>),
       Suc (snd s)) }"

datatype copy_call = Copy ptr ptr | Spine ptr ptr

partial_function (option) copy_rec :: "copy_call \<Rightarrow> ('k, 'v) store \<times> addr
    \<Rightarrow> (ptr \<times> ('k, 'v) store \<times> addr) option" where
  "copy_rec c s =
     (case c of
        Copy x p \<Rightarrow> do {
          (tp, h, a) \<leftarrow> clone_node x s;
          h \<leftarrow> modify tp (\<lambda>n. n\<lparr>parent := p\<rparr>) h;
          xr \<leftarrow> get right h x;
          (h, a) \<leftarrow> (if xr \<noteq> None then do {
                       (r, h, a) \<leftarrow> copy_rec (Copy xr tp) (h, a);
                       h \<leftarrow> modify tp (\<lambda>n. n\<lparr>right := r\<rparr>) h;
                       Some (h, a) }
                     else Some (h, a));
          xl \<leftarrow> get left h x;
          (_, h, a) \<leftarrow> copy_rec (Spine xl tp) (h, a);
          Some (tp, h, a) }
      | Spine x p \<Rightarrow>
          if x \<noteq> None then do {
            (y, h, a) \<leftarrow> clone_node x s;
            h \<leftarrow> modify p (\<lambda>n. n\<lparr>left := y\<rparr>) h;
            h \<leftarrow> modify y (\<lambda>n. n\<lparr>parent := p\<rparr>) h;
            xr \<leftarrow> get right h x;
            (h, a) \<leftarrow> (if xr \<noteq> None then do {
                         (r, h, a) \<leftarrow> copy_rec (Copy xr y) (h, a);
                         h \<leftarrow> modify y (\<lambda>n. n\<lparr>right := r\<rparr>) h;
                         Some (h, a) }
                       else Some (h, a));
            xl \<leftarrow> get left h x;
            copy_rec (Spine xl y) (h, a) }
          else Some (None, s))"

declare copy_rec.simps [code]

definition copy :: "ptr \<Rightarrow> ptr \<Rightarrow> ('k, 'v) store \<times> addr \<Rightarrow> (ptr \<times> ('k, 'v) store \<times> addr) option"
  where
  "copy x p s = copy_rec (Copy x p) s"

definition avl_tree_copy :: "('k, 'v) avl_tree \<Rightarrow> ('k, 'v) avl_tree option" where
  "avl_tree_copy ot = do {
     let H = alloc ot;
     oh \<leftarrow> deref (store ot) (Some (header ot));
     let h = (store ot)(H \<mapsto> oh);
     (h, a) \<leftarrow> (if parent oh \<noteq> None then do {
                  (tp, h, a) \<leftarrow> copy (parent oh) (Some H) (h, Suc H);
                  h \<leftarrow> modify (Some H) (\<lambda>n. n\<lparr>parent := tp\<rparr>) h;
                  root \<leftarrow> get parent h (Some H);
                  h \<leftarrow> modify root (\<lambda>n. n\<lparr>parent := Some H\<rparr>) h;
                  root \<leftarrow> get parent h (Some H);
                  leftmost \<leftarrow> increment_down h root;
                  h \<leftarrow> modify (Some H) (\<lambda>n. n\<lparr>left := leftmost\<rparr>) h;
                  root \<leftarrow> get parent h (Some H);
                  rightmost \<leftarrow> decrement_down h root;
                  h \<leftarrow> modify (Some H) (\<lambda>n. n\<lparr>right := rightmost\<rparr>) h;
                  Some (h, a) }
                else Some (h, Suc H));
     Some \<lparr>store = h, header = H, node_count = node_count ot, alloc = a\<rparr> }"

section \<open>The interval tree (interval\_tree.hpp)\<close>

text \<open>
  \<open>Key\<close> is \<open>int\<close> with the default \<open>Compare = std::less<Key>\<close>. A node's key is
  the interval, its mapped value an \<open>interval_tree_value\<close>.
\<close>

record 'd interval_tree_value =
  max_val :: int
  min_val :: int
  data :: 'd

type_synonym interval = "int \<times> int"
type_synonym 'd istore = "(interval, 'd interval_tree_value) store"
type_synonym 'd inode = "(interval, 'd interval_tree_value) node"

definition Interval_Compare :: "interval \<Rightarrow> interval \<Rightarrow> bool" where
  "Interval_Compare x y = (fst x < fst y)"

definition Interval_overlap :: "interval \<Rightarrow> interval \<Rightarrow> bool" where
  "Interval_overlap x y = (fst x < snd y \<and> fst y < snd x)"

definition node_max :: "'d inode \<Rightarrow> int" where
  "node_max n = max_val (snd (val n))"

definition node_min :: "'d inode \<Rightarrow> int" where
  "node_min n = min_val (snd (val n))"

definition set_max :: "int \<Rightarrow> 'd inode \<Rightarrow> 'd inode" where
  "set_max m n = n\<lparr>val := (fst (val n), (snd (val n))\<lparr>max_val := m\<rparr>)\<rparr>"

definition set_min :: "int \<Rightarrow> 'd inode \<Rightarrow> 'd inode" where
  "set_min m n = n\<lparr>val := (fst (val n), (snd (val n))\<lparr>min_val := m\<rparr>)\<rparr>"

text \<open>\<open>Interval::rotation::_update_min_max\<close> and the two rotations.\<close>

definition update_min_max :: "ptr \<Rightarrow> 'd istore \<Rightarrow> 'd istore option" where
  "update_min_max x h = do {
     p \<leftarrow> get parent h x;
     m \<leftarrow> get node_max h x;
     h \<leftarrow> modify p (set_max m) h;
     p \<leftarrow> get parent h x;
     m \<leftarrow> get node_min h x;
     h \<leftarrow> modify p (set_min m) h;
     k \<leftarrow> get (fst \<circ> val) h x;
     h \<leftarrow> modify x (set_max (snd k)) h;
     k \<leftarrow> get (fst \<circ> val) h x;
     h \<leftarrow> modify x (set_min (fst k)) h;
     l \<leftarrow> get left h x;
     h \<leftarrow> (if l \<noteq> None then do {
            a \<leftarrow> get node_max h x;
            b \<leftarrow> get node_max h l;
            h \<leftarrow> modify x (set_max (max a b)) h;
            a \<leftarrow> get node_min h x;
            b \<leftarrow> get node_min h l;
            modify x (set_min (min a b)) h }
          else Some h);
     r \<leftarrow> get right h x;
     if r \<noteq> None then do {
       a \<leftarrow> get node_max h x;
       b \<leftarrow> get node_max h r;
       h \<leftarrow> modify x (set_max (max a b)) h;
       a \<leftarrow> get node_min h x;
       b \<leftarrow> get node_min h r;
       modify x (set_min (min a b)) h }
     else Some h }"

definition interval_rotation_left :: "ptr \<Rightarrow> addr \<Rightarrow> 'd istore \<Rightarrow> 'd istore option" where
  "interval_rotation_left x H h = do { h \<leftarrow> rotation_left x H h; update_min_max x h }"

definition interval_rotation_right :: "ptr \<Rightarrow> addr \<Rightarrow> 'd istore \<Rightarrow> 'd istore option" where
  "interval_rotation_right x H h = do { h \<leftarrow> rotation_right x H h; update_min_max x h }"

text \<open>\<open>Interval::updater::update\<close>; the loop carries \<open>unbalance_switch\<close>.\<close>

partial_function (option) interval_update_loop :: "bool \<Rightarrow> ptr \<Rightarrow> ptr \<Rightarrow> addr \<Rightarrow> 'd istore
    \<Rightarrow> 'd istore option" where
  "interval_update_loop unbalance_switch leaf unbalanced H h = do {
     p \<leftarrow> get parent h leaf;
     h \<leftarrow> (if \<not> unbalance_switch then do {
            pl \<leftarrow> get left h p;
            if pl = leaf then modify p (\<lambda>n. n\<lparr>balance := balance n - 1\<rparr>) h
            else modify p (\<lambda>n. n\<lparr>balance := balance n + 1\<rparr>) h }
          else Some h);
     a \<leftarrow> get node_max h leaf;
     b \<leftarrow> get node_max h p;
     h \<leftarrow> modify p (set_max (max a b)) h;
     a \<leftarrow> get node_min h leaf;
     b \<leftarrow> get node_min h p;
     h \<leftarrow> modify p (set_min (min a b)) h;
     root \<leftarrow> get parent h (Some H);
     if p = root then Some h
     else interval_update_loop (if p = unbalanced then True else unbalance_switch)
            p unbalanced H h }"

declare interval_update_loop.simps [code]

definition interval_update :: "ptr \<Rightarrow> ptr \<Rightarrow> addr \<Rightarrow> 'd istore \<Rightarrow> 'd istore option" where
  "interval_update x unbalanced H h = interval_update_loop False x unbalanced H h"

definition interval_policy :: "(interval, 'd interval_tree_value) policy" where
  "interval_policy = \<lparr>rotate_left = interval_rotation_left,
     rotate_right = interval_rotation_right, update = interval_update\<rparr>"

text \<open>
  The query iterator (\<open>_interval_iterator\<close> and \<open>_interval_const_iterator\<close> have
  the same code). The array \<open>_stack\<close> with its index \<open>_sp\<close> is the list of the
  \<open>_sp\<close> live entries, top first. One turn of the loop of \<open>_forward\<close> says which
  undefined behaviour stops it, if any: a read through a pointer that is
  \<open>NULL\<close> or holds no node, or a push onto the full array.
\<close>

definition STACK_SIZE :: nat where
  "STACK_SIZE = 64"

record interval_iterator =
  it_node :: ptr
  it_interval :: interval
  it_end :: ptr
  it_stack :: "ptr list"

datatype fault = Bad_pointer | Stack_overflow

definition push :: "ptr \<Rightarrow> ptr list \<Rightarrow> fault + ptr list" where
  "push p st = (if length st < STACK_SIZE then Inr (p # st) else Inl Stack_overflow)"

text \<open>
  The body of the \<open>while\<close> loop, for the popped pointer \<open>tp\<close> and the rest of the
  stack: the new state, and whether the popped node overlaps the query (the
  loop then returns).
\<close>

definition forward_step :: "'d istore \<Rightarrow> interval_iterator \<Rightarrow> ptr \<Rightarrow> ptr list
    \<Rightarrow> fault + (bool \<times> interval_iterator)" where
  "forward_step h it tp rest =
     (case deref h tp of
        None \<Rightarrow> Inl Bad_pointer
      | Some n \<Rightarrow>
          (case (if left n \<noteq> None
                 then (case deref h (left n) of
                         None \<Rightarrow> Inl Bad_pointer
                       | Some l \<Rightarrow> if fst (it_interval it) < node_max l
                                  then push (left n) rest else Inr rest)
                 else Inr rest) of
             Inl e \<Rightarrow> Inl e
           | Inr st \<Rightarrow>
               (case (if right n \<noteq> None
                      then (case deref h (right n) of
                              None \<Rightarrow> Inl Bad_pointer
                            | Some r \<Rightarrow> if node_min r < snd (it_interval it)
                                       then push (right n) st else Inr st)
                      else Inr st) of
                  Inl e \<Rightarrow> Inl e
                | Inr st \<Rightarrow>
                    Inr (Interval_overlap (it_interval it) (fst (val n)),
                         it\<lparr>it_node := tp, it_stack := st\<rparr>))))"

partial_function (option) forward :: "'d istore \<Rightarrow> interval_iterator
    \<Rightarrow> interval_iterator option" where
  "forward h it =
     (case it_stack it of
        [] \<Rightarrow> Some (it\<lparr>it_node := it_end it\<rparr>)
      | tp # rest \<Rightarrow>
          (case forward_step h it tp rest of
             Inl e \<Rightarrow> None
           | Inr (found, it') \<Rightarrow> if found then Some it' else forward h it'))"

declare forward.simps [code]

text \<open>
  The iterator's constructor; \<open>_node\<close>, unset until \<open>_forward\<close> assigns it,
  starts as \<open>NULL\<close>.
\<close>

definition iterator_init :: "'d istore \<Rightarrow> ptr \<Rightarrow> interval \<Rightarrow> ptr \<Rightarrow> interval_iterator option"
  where
  "iterator_init h root i e =
     (case push root [] of
        Inl e \<Rightarrow> None
      | Inr st \<Rightarrow> forward h \<lparr>it_node = None, it_interval = i, it_end = e, it_stack = st\<rparr>)"

record 'd interval_tree =
  base :: "(interval, 'd interval_tree_value) avl_tree"
  dummy_interval :: interval
  end_iter :: interval_iterator

text \<open>
  The constructor. The header's value and \<open>_dummy_interval\<close> are
  value-initialised: keys are \<open>0\<close>, and \<open>d0\<close> is the default \<open>Data\<close>.
\<close>

definition interval_tree_init :: "addr \<Rightarrow> 'd \<Rightarrow> nat \<Rightarrow> 'd interval_tree option" where
  "interval_tree_init H d0 c0 = do {
     let b = avl_tree_init H ((0, 0), \<lparr>max_val = 0, min_val = 0, data = d0\<rparr>) c0;
     e \<leftarrow> iterator_init (store b) (Some H) (0, 0) (Some H);
     Some \<lparr>base = b, dummy_interval = (0, 0), end_iter = e\<rparr> }"

definition interval_tree_copy :: "'d interval_tree \<Rightarrow> 'd interval_tree option" where
  "interval_tree_copy ot = do {
     b \<leftarrow> avl_tree_copy (base ot);
     e \<leftarrow> iterator_init (store b) (Some (header b)) (0, 0) (Some (header b));
     Some \<lparr>base = b, dummy_interval = (0, 0), end_iter = e\<rparr> }"

definition equal_range :: "'d interval_tree \<Rightarrow> interval \<Rightarrow> interval_iterator option" where
  "equal_range t i = do {
     root \<leftarrow> get parent (store (base t)) (Some (header (base t)));
     iterator_init (store (base t)) root i (Some (header (base t))) }"

definition equal_range_key :: "'d interval_tree \<Rightarrow> int \<Rightarrow> interval_iterator option" where
  "equal_range_key t k = equal_range t (k, k)"

text \<open>\<open>interval_tree::insert\<close> returns \<open>void\<close>: only the tree comes back.\<close>

definition interval_insert :: "interval \<times> 'd \<Rightarrow> 'd interval_tree \<Rightarrow> 'd interval_tree option"
  where
  "interval_insert x t = do {
     let d = \<lparr>max_val = snd (fst x), min_val = fst (fst x), data = snd x\<rparr>;
     (b, _, _) \<leftarrow> avl_insert Interval_Compare interval_policy (fst x, d) (base t);
     Some (t\<lparr>base := b\<rparr>) }"

text \<open>
  The sequence a client reads from a query: from the iterator \<open>equal_range\<close>
  returns, \<open>++\<close> until it compares equal to \<open>end()\<close>, reading each entry.
\<close>

partial_function (option) collect :: "'d istore \<Rightarrow> ptr \<Rightarrow> interval_iterator
    \<Rightarrow> (interval \<times> 'd) list option" where
  "collect h e it =
     (if it_node it = e then Some []
      else do {
        n \<leftarrow> deref h (it_node it);
        it' \<leftarrow> forward h it;
        rest \<leftarrow> collect h e it';
        Some ((fst (val n), data (snd (val n))) # rest) })"

declare collect.simps [code]

definition query :: "'d interval_tree \<Rightarrow> interval \<Rightarrow> (interval \<times> 'd) list option" where
  "query t i = do {
     it \<leftarrow> equal_range t i;
     collect (store (base t)) (it_node (end_iter t)) it }"

definition query_key :: "'d interval_tree \<Rightarrow> int \<Rightarrow> (interval \<times> 'd) list option" where
  "query_key t k = do {
     it \<leftarrow> equal_range_key t k;
     collect (store (base t)) (it_node (end_iter t)) it }"

section \<open>Shapes, contexts and the representation invariant\<close>

text \<open>
  The shape of a tree in the store: the addresses of its nodes, arranged as
  the \<open>_left\<close> and \<open>_right\<close> links arrange them.
\<close>

datatype shape = Tip | Br shape addr shape

fun rootp :: "shape \<Rightarrow> ptr" where
  "rootp Tip = None"
| "rootp (Br l a r) = Some a"

fun inorder :: "shape \<Rightarrow> addr list" where
  "inorder Tip = []"
| "inorder (Br l a r) = inorder l @ a # inorder r"

fun height :: "shape \<Rightarrow> nat" where
  "height Tip = 0"
| "height (Br l a r) = Suc (max (height l) (height r))"

text \<open>
  A context is the path from a position in the tree up to the root: for every
  ancestor, bottom-up, whether the position is in its left subtree, its
  address and the subtree on the other side.
\<close>

type_synonym frame = "bool \<times> addr \<times> shape"

fun wrap :: "frame \<Rightarrow> shape \<Rightarrow> shape" where
  "wrap (d, a, sib) s = (if d then Br s a sib else Br sib a s)"

fun plug :: "frame list \<Rightarrow> shape \<Rightarrow> shape" where
  "plug [] s = s"
| "plug (fr # c) s = plug c (wrap fr s)"

fun before :: "frame list \<Rightarrow> addr list" where
  "before [] = []"
| "before ((d, a, sib) # c) = before c @ (if d then [] else inorder sib @ [a])"

fun after :: "frame list \<Rightarrow> addr list" where
  "after [] = []"
| "after ((d, a, sib) # c) = (if d then a # inorder sib else []) @ after c"

fun hole_parent :: "ptr \<Rightarrow> frame list \<Rightarrow> ptr" where
  "hole_parent tp [] = tp"
| "hole_parent tp ((d, a, sib) # c) = Some a"

text \<open>
  \<open>wfs h p s\<close>: the store links the nodes of \<open>s\<close> as \<open>s\<close> says, below the parent
  \<open>p\<close>. \<open>wfc h tp c q\<close>: the same for the nodes of the context \<open>c\<close>, whose
  position holds the pointer \<open>q\<close>.
\<close>

fun wfs :: "('k, 'v) store \<Rightarrow> ptr \<Rightarrow> shape \<Rightarrow> bool" where
  "wfs h p Tip = True"
| "wfs h p (Br l a r) =
     (case h a of None \<Rightarrow> False
      | Some n \<Rightarrow> parent n = p \<and> left n = rootp l \<and> right n = rootp r
          \<and> wfs h (Some a) l \<and> wfs h (Some a) r)"

fun wfc :: "('k, 'v) store \<Rightarrow> ptr \<Rightarrow> frame list \<Rightarrow> ptr \<Rightarrow> bool" where
  "wfc h tp [] q = True"
| "wfc h tp ((d, a, sib) # c) q =
     (case h a of None \<Rightarrow> False
      | Some n \<Rightarrow> parent n = hole_parent tp c
          \<and> (if d then left n = q \<and> right n = rootp sib
              else right n = q \<and> left n = rootp sib)
          \<and> wfs h (Some a) sib \<and> wfc h tp c (Some a))"

definition bal :: "('k, 'v) store \<Rightarrow> addr \<Rightarrow> int" where
  "bal h a = balance (the (h a))"

definition key :: "('k, 'v) store \<Rightarrow> addr \<Rightarrow> 'k" where
  "key h a = fst (val (the (h a)))"

definition links :: "('k, 'v) store \<Rightarrow> addr \<Rightarrow> (ptr \<times> ptr \<times> ptr) option" where
  "links h a = map_option (\<lambda>n. (parent n, left n, right n)) (h a)"

text \<open>
  The balance invariant: every stored balance is the height of the right
  subtree minus the height of the left subtree, and lies in \<open>{-1, 0, 1}\<close>.
\<close>

fun avl :: "(addr \<Rightarrow> int) \<Rightarrow> shape \<Rightarrow> bool" where
  "avl b Tip = True"
| "avl b (Br l a r) =
     (b a = int (height r) - int (height l) \<and> - 1 \<le> b a \<and> b a \<le> 1 \<and> avl b l \<and> avl b r)"

fun avlc :: "(addr \<Rightarrow> int) \<Rightarrow> frame list \<Rightarrow> nat \<Rightarrow> bool" where
  "avlc b [] n = True"
| "avlc b ((d, a, sib) # c) n =
     (b a = (if d then int (height sib) - int n else int n - int (height sib))
      \<and> - 1 \<le> b a \<and> b a \<le> 1 \<and> avl b sib \<and> avlc b c (Suc (max n (height sib))))"

text \<open>
  The descent of \<open>insert\<close> through a shape: the context of the position where
  the search for the key \<open>kk\<close> falls off the tree. \<open>kf\<close> gives the (projected)
  key stored at an address.
\<close>

fun descend :: "(addr \<Rightarrow> 'o::linorder) \<Rightarrow> 'o \<Rightarrow> shape \<Rightarrow> frame list \<Rightarrow> frame list" where
  "descend kf kk Tip c = c"
| "descend kf kk (Br l a r) c =
     (if kk < kf a then descend kf kk l ((True, a, r) # c)
      else descend kf kk r ((False, a, l) # c))"

fun top_dir :: "frame list \<Rightarrow> bool" where
  "top_dir [] = True"
| "top_dir ((d, a, sib) # c) = d"

text \<open>The rebalance candidate: the lowest ancestor with a non-zero balance.\<close>

fun cand :: "(addr \<Rightarrow> int) \<Rightarrow> ptr \<Rightarrow> frame list \<Rightarrow> ptr" where
  "cand b tp [] = tp"
| "cand b tp ((d, a, sib) # c) = (if b a \<noteq> 0 then Some a else cand b tp c)"

text \<open>The ancestors up to and including the candidate.\<close>

fun cut :: "(addr \<Rightarrow> int) \<Rightarrow> frame list \<Rightarrow> frame list" where
  "cut b [] = []"
| "cut b ((d, a, sib) # c) = (d, a, sib) # (if b a \<noteq> 0 then [] else cut b c)"

fun lowest_right :: "frame list \<Rightarrow> ptr" where
  "lowest_right [] = None"
| "lowest_right ((d, a, sib) # c) = (if d then lowest_right c else Some a)"

fun lowest_left :: "frame list \<Rightarrow> ptr" where
  "lowest_left [] = None"
| "lowest_left ((d, a, sib) # c) = (if d then Some a else lowest_left c)"

definition bump :: "bool \<Rightarrow> ('k, 'v) node \<Rightarrow> ('k, 'v) node" where
  "bump d n = n\<lparr>balance := balance n + (if d then - 1 else 1)\<rparr>"

fun bumps :: "frame list \<Rightarrow> ('k, 'v) store \<Rightarrow> ('k, 'v) store" where
  "bumps [] h = h"
| "bumps ((d, a, sib) # c) h = bumps c (h(a := map_option (bump d) (h a)))"

definition header_ok :: "('k, 'v) store \<Rightarrow> addr \<Rightarrow> shape \<Rightarrow> bool" where
  "header_ok h H t =
     (case h H of None \<Rightarrow> False
      | Some n \<Rightarrow> parent n = rootp t
          \<and> left n = Some (if inorder t = [] then H else hd (inorder t))
          \<and> right n = Some (if inorder t = [] then H else last (inorder t)))"

text \<open>
  The representation invariant of a tree object with shape \<open>t\<close>: links,
  header, fresh addresses, search-tree order of the keys under the projection
  \<open>f\<close>, and the balance invariant.
\<close>

definition tree_inv :: "('k \<Rightarrow> 'o::linorder) \<Rightarrow> ('k, 'v) avl_tree \<Rightarrow> shape \<Rightarrow> bool" where
  "tree_inv f T t =
     (wfs (store T) (Some (header T)) t
      \<and> header_ok (store T) (header T) t
      \<and> header T \<notin> set (inorder t)
      \<and> list_all (\<lambda>a. a < alloc T) (header T # inorder t)
      \<and> sorted_wrt (\<lambda>a a'. f (key (store T) a) < f (key (store T) a')) (inorder t)
      \<and> avl (bal (store T)) t)"

text \<open>The store after a left or right rotation at \<open>x\<close> below the context \<open>ca\<close>.\<close>

definition rot_left_store :: "addr \<Rightarrow> frame list \<Rightarrow> addr \<Rightarrow> addr \<Rightarrow> shape
    \<Rightarrow> ('k, 'v) store \<Rightarrow> ('k, 'v) store" where
  "rot_left_store H ca x y mid h =
     (let h1 = (case rootp mid of None \<Rightarrow> h
                | Some b \<Rightarrow> h(b := map_option (\<lambda>n. n\<lparr>parent := Some x\<rparr>) (h b)));
          h2 = (case ca of
                  [] \<Rightarrow> h1(H := map_option (\<lambda>n. n\<lparr>parent := Some y\<rparr>) (h1 H))
                | (d, a, sib) # c \<Rightarrow>
                    h1(a := map_option
                         (if d then (\<lambda>n. n\<lparr>left := Some y\<rparr>) else (\<lambda>n. n\<lparr>right := Some y\<rparr>))
                         (h1 a)))
      in h2(x := map_option (\<lambda>n. n\<lparr>right := rootp mid, parent := Some y\<rparr>) (h x),
            y := map_option (\<lambda>n. n\<lparr>parent := hole_parent (Some H) ca, left := Some x\<rparr>) (h y)))"

definition rot_right_store :: "addr \<Rightarrow> frame list \<Rightarrow> addr \<Rightarrow> addr \<Rightarrow> shape
    \<Rightarrow> ('k, 'v) store \<Rightarrow> ('k, 'v) store" where
  "rot_right_store H ca x y mid h =
     (let h1 = (case rootp mid of None \<Rightarrow> h
                | Some b \<Rightarrow> h(b := map_option (\<lambda>n. n\<lparr>parent := Some x\<rparr>) (h b)));
          h2 = (case ca of
                  [] \<Rightarrow> h1(H := map_option (\<lambda>n. n\<lparr>parent := Some y\<rparr>) (h1 H))
                | (d, a, sib) # c \<Rightarrow>
                    h1(a := map_option
                         (if d then (\<lambda>n. n\<lparr>left := Some y\<rparr>) else (\<lambda>n. n\<lparr>right := Some y\<rparr>))
                         (h1 a)))
      in h2(x := map_option (\<lambda>n. n\<lparr>left := rootp mid, parent := Some y\<rparr>) (h x),
            y := map_option (\<lambda>n. n\<lparr>parent := hole_parent (Some H) ca, right := Some x\<rparr>) (h y)))"

text \<open>
  What the tree needs from its \<open>Rotation\<close> and \<open>Updater\<close> policies. A rotation
  relinks three nodes and the slot above them and leaves balances and keys
  alone; the updater adjusts the balances from the new leaf up to the
  candidate and leaves links and keys alone. \<open>Q\<close> is an invariant of the
  mapped values that the policy maintains on its own (\<open>LQ\<close> is what it needs of
  a new entry); it may depend on the values of the tree's nodes only.
\<close>

definition rot_left_spec :: "(('k, 'v) store \<Rightarrow> shape \<Rightarrow> bool)
    \<Rightarrow> (ptr \<Rightarrow> addr \<Rightarrow> ('k, 'v) store \<Rightarrow> ('k, 'v) store option) \<Rightarrow> bool" where
  "rot_left_spec Q rot =
     (\<forall>h H ca l x rl y rr nH.
        wfc h (Some H) ca (Some x) \<and> wfs h (hole_parent (Some H) ca) (Br l x (Br rl y rr))
        \<and> distinct (inorder (plug ca (Br l x (Br rl y rr))))
        \<and> H \<notin> set (inorder (plug ca (Br l x (Br rl y rr))))
        \<and> h H = Some nH \<and> parent nH = rootp (plug ca (Br l x (Br rl y rr)))
        \<longrightarrow> (\<exists>h' nH'. rot (Some x) H h = Some h'
              \<and> wfc h' (Some H) ca (Some y)
              \<and> wfs h' (hole_parent (Some H) ca) (Br (Br l x rl) y rr)
              \<and> h' H = Some nH' \<and> parent nH' = rootp (plug ca (Br (Br l x rl) y rr))
              \<and> left nH' = left nH \<and> right nH' = right nH
              \<and> (\<forall>a. a \<noteq> H \<longrightarrow> bal h' a = bal h a \<and> key h' a = key h a)
              \<and> (Q h (plug ca (Br l x (Br rl y rr)))
                   \<longrightarrow> Q h' (plug ca (Br (Br l x rl) y rr)))))"

definition rot_right_spec :: "(('k, 'v) store \<Rightarrow> shape \<Rightarrow> bool)
    \<Rightarrow> (ptr \<Rightarrow> addr \<Rightarrow> ('k, 'v) store \<Rightarrow> ('k, 'v) store option) \<Rightarrow> bool" where
  "rot_right_spec Q rot =
     (\<forall>h H ca ll y lr x r nH.
        wfc h (Some H) ca (Some x) \<and> wfs h (hole_parent (Some H) ca) (Br (Br ll y lr) x r)
        \<and> distinct (inorder (plug ca (Br (Br ll y lr) x r)))
        \<and> H \<notin> set (inorder (plug ca (Br (Br ll y lr) x r)))
        \<and> h H = Some nH \<and> parent nH = rootp (plug ca (Br (Br ll y lr) x r))
        \<longrightarrow> (\<exists>h' nH'. rot (Some x) H h = Some h'
              \<and> wfc h' (Some H) ca (Some y)
              \<and> wfs h' (hole_parent (Some H) ca) (Br ll y (Br lr x r))
              \<and> h' H = Some nH' \<and> parent nH' = rootp (plug ca (Br ll y (Br lr x r)))
              \<and> left nH' = left nH \<and> right nH' = right nH
              \<and> (\<forall>a. a \<noteq> H \<longrightarrow> bal h' a = bal h a \<and> key h' a = key h a)
              \<and> (Q h (plug ca (Br (Br ll y lr) x r))
                   \<longrightarrow> Q h' (plug ca (Br ll y (Br lr x r))))))"

definition update_spec :: "(('k, 'v) store \<Rightarrow> shape \<Rightarrow> bool) \<Rightarrow> (addr \<Rightarrow> 'k \<times> 'v \<Rightarrow> bool)
    \<Rightarrow> (ptr \<Rightarrow> ptr \<Rightarrow> addr \<Rightarrow> ('k, 'v) store \<Rightarrow> ('k, 'v) store option) \<Rightarrow> bool" where
  "update_spec Q LQ upd =
     (\<forall>h H Z x nx nH.
        wfc h (Some H) Z (Some x)
        \<and> h x = Some nx \<and> parent nx = hole_parent (Some H) Z
        \<and> left nx = None \<and> right nx = None \<and> balance nx = 0
        \<and> h H = Some nH \<and> parent nH = rootp (plug Z (Br Tip x Tip))
        \<and> distinct (before Z @ x # after Z) \<and> H \<notin> set (before Z @ x # after Z)
        \<longrightarrow> (\<exists>h' nH'. upd (Some x) (cand (bal h) (Some H) Z) H h = Some h'
              \<and> (\<forall>a. a \<noteq> H \<longrightarrow> links h' a = links h a \<and> key h' a = key h a
                     \<and> bal h' a = bal (bumps (cut (bal h) Z) h) a)
              \<and> h' H = Some nH' \<and> parent nH' = parent nH
              \<and> left nH' = left nH \<and> right nH' = right nH
              \<and> (Q h (plug Z Tip) \<and> LQ x (val nx) \<longrightarrow> Q h' (plug Z (Br Tip x Tip)))))"

definition Q_frame :: "(('k, 'v) store \<Rightarrow> shape \<Rightarrow> bool) \<Rightarrow> bool" where
  "Q_frame Q =
     (\<forall>h h' t. (\<forall>a \<in> set (inorder t). map_option val (h' a) = map_option val (h a))
        \<longrightarrow> Q h t \<longrightarrow> Q h' t)"

definition policy_ok :: "(('k, 'v) store \<Rightarrow> shape \<Rightarrow> bool) \<Rightarrow> (addr \<Rightarrow> 'k \<times> 'v \<Rightarrow> bool)
    \<Rightarrow> ('k, 'v) policy \<Rightarrow> bool" where
  "policy_ok Q LQ pol =
     (Q_frame Q \<and> update_spec Q LQ (update pol)
      \<and> rot_left_spec Q (rotate_left pol) \<and> rot_right_spec Q (rotate_right pol))"

text \<open>The invariant of the plain tree's values: no entry ever changes.\<close>

definition vals_are :: "(addr \<Rightarrow> 'k \<times> 'v) \<Rightarrow> ('k, 'v) store \<Rightarrow> shape \<Rightarrow> bool" where
  "vals_are g h t = list_all (\<lambda>a. map_option val (h a) = Some (g a)) (inorder t)"

text \<open>
  What rebalancing at the root of the subtree \<open>S\<close> below the context \<open>ca\<close>
  achieves: a subtree with the same nodes in the same order, balanced, lower
  by \<open>dh\<close>, with everything outside as it was.
\<close>

definition rebal_post :: "(('k, 'v) store \<Rightarrow> shape \<Rightarrow> bool) \<Rightarrow> ('k, 'v) store \<Rightarrow> addr
    \<Rightarrow> frame list \<Rightarrow> shape \<Rightarrow> ('k, 'v) node \<Rightarrow> int \<Rightarrow> ('k, 'v) store \<Rightarrow> bool" where
  "rebal_post Q h H ca S nH dh h' =
     (\<exists>S' nH'. wfc h' (Some H) ca (rootp S') \<and> wfs h' (hole_parent (Some H) ca) S'
        \<and> inorder S' = inorder S \<and> avl (bal h') S'
        \<and> int (height S') = int (height S) - dh
        \<and> h' H = Some nH' \<and> parent nH' = rootp (plug ca S')
        \<and> left nH' = left nH \<and> right nH' = right nH
        \<and> (\<forall>a. a \<noteq> H \<longrightarrow> key h' a = key h a)
        \<and> (\<forall>a. a \<noteq> H \<longrightarrow> a \<notin> set (inorder S) \<longrightarrow> bal h' a = bal h a)
        \<and> Q h' (plug ca S'))"

section \<open>Trees built by insertions\<close>

text \<open>A client that inserts the entries \<open>vs\<close> one after the other.\<close>

fun insert_all :: "('k \<Rightarrow> 'k \<Rightarrow> bool) \<Rightarrow> ('k, 'v) policy \<Rightarrow> ('k \<times> 'v) list
    \<Rightarrow> ('k, 'v) avl_tree \<Rightarrow> ('k, 'v) avl_tree option" where
  "insert_all compare pol [] t = Some t"
| "insert_all compare pol (v # vs) t = do {
     (t', _, _) \<leftarrow> avl_insert compare pol v t;
     insert_all compare pol vs t' }"

text \<open>The entries stored in the nodes of a shape, in order.\<close>

definition entries :: "('k, 'v) store \<Rightarrow> shape \<Rightarrow> ('k \<times> 'v) list" where
  "entries h t = map (\<lambda>a. val (the (h a))) (inorder t)"

text \<open>
  The map a sequence of insertions denotes: an entry is added unless an entry
  with the same key (under the projection \<open>f\<close>) is already there.
\<close>

definition add_entry :: "('k \<Rightarrow> 'o) \<Rightarrow> 'k \<times> 'v \<Rightarrow> ('k \<times> 'v) list \<Rightarrow> ('k \<times> 'v) list" where
  "add_entry f v es = (if f (fst v) \<in> set (map (f \<circ> fst) es) then es else es @ [v])"

definition contents :: "('k \<Rightarrow> 'o) \<Rightarrow> ('k \<times> 'v) list \<Rightarrow> ('k \<times> 'v) list" where
  "contents f vs = fold (add_entry f) vs []"

text \<open>Two stores that differ in balance factors only.\<close>

definition balances_only :: "('k, 'v) store \<Rightarrow> ('k, 'v) store \<Rightarrow> bool" where
  "balances_only h h' =
     (\<forall>a. links h' a = links h a \<and> map_option val (h' a) = map_option val (h a))"

text \<open>
  An example: the store when \<open>1\<close>, \<open>3\<close> and \<open>2\<close> have been inserted in this order
  into an empty tree at address \<open>0\<close>, just before \<open>_rebalance\<close> runs for the
  third insertion. The candidate is the node of key \<open>1\<close>, at address \<open>1\<close>.
\<close>

definition right_left_store :: "(int, unit) store" where
  "right_left_store =
     [0 \<mapsto> \<lparr>parent = Some 1, left = Some 1, right = Some 2, balance = - 2, val = (0, ())\<rparr>,
      1 \<mapsto> \<lparr>parent = Some 0, left = None, right = Some 2, balance = 2, val = (1, ())\<rparr>,
      2 \<mapsto> \<lparr>parent = Some 1, left = Some 3, right = None, balance = - 1, val = (3, ())\<rparr>,
      3 \<mapsto> \<lparr>parent = Some 2, left = None, right = None, balance = 0, val = (2, ())\<rparr>]"

section \<open>The states of a query\<close>


section \<open>Stored bounds and the invariant of the query stack\<close>




text \<open>
  An example: the interval tree of four entries, at address \<open>0\<close>, with \<open>[2,6)\<close>
  at the root (address \<open>2\<close>), \<open>[1,5)\<close> to its left (address \<open>1\<close>), \<open>[8,9)\<close> to its
  right (address \<open>3\<close>) and \<open>[3,4)\<close> below that (address \<open>4\<close>).
\<close>

definition four_intervals :: "string interval_tree option" where
  "four_intervals = do {
     t \<leftarrow> interval_tree_init 0 ''-'' 0;
     t \<leftarrow> interval_insert ((1, 5), ''A'') t;
     t \<leftarrow> interval_insert ((2, 6), ''B'') t;
     t \<leftarrow> interval_insert ((8, 9), ''C'') t;
     interval_insert ((3, 4), ''D'') t }"

section \<open>Shapes and contexts\<close>

lemma inorder_plug: "inorder (plug c s) = before c @ inorder s @ after c"
  by (induction c arbitrary: s) auto

lemma plug_append: "plug (c @ c') s = plug c' (plug c s)"
  by (induction c arbitrary: s) auto

lemma wfs_plug: "wfs h tp (plug c s) = (wfc h tp c (rootp s) \<and> wfs h (hole_parent tp c) s)"
proof (induction c arbitrary: s)
  case Nil
  show ?case by simp
next
  case (Cons fr c)
  obtain d a sib where fr: "fr = (d, a, sib)" by (cases fr)
  show ?case
    by (cases d; cases "h a") (auto simp: fr Cons.IH)
qed

lemma avl_plug: "avl b (plug c s) = (avl b s \<and> avlc b c (height s))"
proof (induction c arbitrary: s)
  case Nil
  show ?case by simp
next
  case (Cons fr c)
  obtain d a sib where fr: "fr = (d, a, sib)" by (cases fr)
  show ?case
    by (cases d) (auto simp: fr Cons.IH max.commute)
qed

lemma plug_descend: "plug (descend kf kk s c) Tip = plug c s"
  by (induction s arbitrary: c) auto

lemma wfs_cong:
  "(\<And>a. a \<in> set (inorder s) \<Longrightarrow> links h' a = links h a) \<Longrightarrow> wfs h' p s = wfs h p s"
proof (induction s arbitrary: p)
  case Tip
  show ?case by simp
next
  case (Br l a r)
  have la: "links h' a = links h a" using Br.prems by simp
  have l: "wfs h' (Some a) l = wfs h (Some a) l" using Br.prems by (intro Br.IH) simp
  have r: "wfs h' (Some a) r = wfs h (Some a) r" using Br.prems by (intro Br.IH) simp
  show ?case using la l r
    by (cases "h a"; cases "h' a") (auto simp: links_def)
qed

lemma wfc_cong:
  "(\<And>a. a \<in> set (before c @ after c) \<Longrightarrow> links h' a = links h a)
   \<Longrightarrow> wfc h' tp c q = wfc h tp c q"
proof (induction c arbitrary: q)
  case Nil
  show ?case by simp
next
  case (Cons fr c)
  obtain d a sib where fr: "fr = (d, a, sib)" by (cases fr)
  have la: "links h' a = links h a" using Cons.prems by (cases d) (auto simp: fr)
  have s: "wfs h' (Some a) sib = wfs h (Some a) sib"
    using Cons.prems by (intro wfs_cong) (cases d; auto simp: fr)
  have c: "wfc h' tp c (Some a) = wfc h tp c (Some a)"
    using Cons.prems by (intro Cons.IH) (cases d; auto simp: fr)
  show ?case using la s c
    by (cases "h a"; cases "h' a") (auto simp: links_def fr)
qed

lemma insert_loop_descend:
  "wfs h (hole_parent tp c) s \<Longrightarrow>
   insert_loop (\<lambda>x y. f x < f y) h k (rootp s) (hole_parent tp c) (cand (bal h) tp c) (top_dir c)
   = Some (let c' = descend (\<lambda>a. f (key h a)) (f k) s c
           in (hole_parent tp c', cand (bal h) tp c', top_dir c'))"
proof (induction s arbitrary: c)
  case Tip
  show ?case by (subst insert_loop.simps) simp
next
  case (Br l a r)
  from Br.prems obtain n where n: "h a = Some n" "left n = rootp l" "right n = rootp r"
    "wfs h (Some a) l" "wfs h (Some a) r"
    by (auto split: option.splits)
  have kb: "key h a = fst (val n)" "bal h a = balance n"
    by (simp_all add: key_def bal_def n)
  show ?case
  proof (cases "f k < f (key h a)")
    case True
    have "wfs h (hole_parent tp ((True, a, r) # c)) l" using n by simp
    from Br.IH(1)[OF this] show ?thesis using True n
      by (subst insert_loop.simps) (auto simp: deref_def kb)
  next
    case False
    have "wfs h (hole_parent tp ((False, a, l) # c)) r" using n by simp
    from Br.IH(2)[OF this] show ?thesis using False n
      by (subst insert_loop.simps) (auto simp: deref_def kb)
  qed
qed

section \<open>The descent and the predecessor\<close>

lemma lowest_right_before:
  "lowest_right c = (if before c = [] then None else Some (last (before c)))"
  by (induction c) (auto split: if_splits)

lemma lowest_left_after:
  "lowest_left c = (if after c = [] then None else Some (hd (after c)))"
  by (induction c) (auto split: if_splits)

lemma top_dir_before:
  "c \<noteq> [] \<Longrightarrow> \<not> top_dir c \<Longrightarrow> hole_parent tp c = Some (last (before c))"
  by (cases c) auto

lemma top_dir_after:
  "c \<noteq> [] \<Longrightarrow> top_dir c \<Longrightarrow> hole_parent tp c = Some (hd (after c))"
  by (cases c) auto

lemma dirs_descend:
  "list_all (\<lambda>(d, a, sib). d = (kk < kf a)) c
   \<Longrightarrow> list_all (\<lambda>(d, a, sib). d = (kk < kf a)) (descend kf kk s c)"
  by (induction s arbitrary: c) auto

lemma dirs_sorted:
  fixes kf :: "addr \<Rightarrow> 'o::linorder"
  shows "list_all (\<lambda>(d, a, sib). d = (kk < kf a)) c
   \<Longrightarrow> sorted_wrt (\<lambda>a a'. kf a < kf a') (before c @ after c)
   \<Longrightarrow> (\<forall>x \<in> set (before c). kf x \<le> kk) \<and> (\<forall>x \<in> set (after c). kk < kf x)"
proof (induction c)
  case Nil
  show ?case by simp
next
  case (Cons fr c)
  obtain d a sib where fr: "fr = (d, a, sib)" by (cases fr)
  have srt: "sorted_wrt (\<lambda>a a'. kf a < kf a') (before c @ after c)"
    using Cons.prems(2) by (cases d) (auto simp: fr sorted_wrt_append)
  have IH: "(\<forall>x \<in> set (before c). kf x \<le> kk) \<and> (\<forall>x \<in> set (after c). kk < kf x)"
    using Cons.IH Cons.prems(1) srt by simp
  show ?case
  proof (cases d)
    case True
    hence "kk < kf a" using Cons.prems(1) by (simp add: fr)
    moreover have "\<forall>x \<in> set (inorder sib). kf a < kf x"
      using Cons.prems(2) True by (auto simp: fr sorted_wrt_append)
    ultimately have "\<forall>x \<in> set (inorder sib). kk < kf x" "kk < kf a"
      by (auto intro: less_trans)
    thus ?thesis using IH True by (auto simp: fr)
  next
    case False
    hence "kf a \<le> kk" using Cons.prems(1) by (simp add: fr not_less)
    moreover have "\<forall>x \<in> set (inorder sib). kf x < kf a"
      using Cons.prems(2) False by (auto simp: fr sorted_wrt_append)
    ultimately have "\<forall>x \<in> set (inorder sib). kf x \<le> kk" "kf a \<le> kk"
      by (auto intro: less_imp_le less_le_trans)
    thus ?thesis using IH False by (auto simp: fr)
  qed
qed

lemma decrement_up_climb:
  "wfc h tp c (Some x) \<Longrightarrow> lowest_right c = Some a \<Longrightarrow> distinct (before c @ x # after c)
   \<Longrightarrow> decrement_up h (Some x) (hole_parent tp c) = Some (Some a)"
proof (induction c arbitrary: x)
  case Nil
  thus ?case by simp
next
  case (Cons fr c)
  obtain d a' sib where fr: "fr = (d, a', sib)" by (cases fr)
  from Cons.prems(1) obtain n where n: "h a' = Some n" "parent n = hole_parent tp c"
    "if d then left n = Some x \<and> right n = rootp sib else right n = Some x \<and> left n = rootp sib"
    "wfc h tp c (Some a')"
    by (auto simp: fr split: option.splits)
  show ?case
  proof (cases d)
    case True
    have lr: "lowest_right c = Some a" using Cons.prems(2) True by (simp add: fr)
    have di: "distinct (before c @ a' # after c)" using Cons.prems(3) True by (auto simp: fr)
    have "decrement_up h (Some a') (hole_parent tp c) = Some (Some a)"
      by (rule Cons.IH[OF n(4) lr di])
    thus ?thesis using n True
      by (subst decrement_up.simps) (simp add: fr get_def deref_def)
  next
    case False
    have a: "a' = a" using Cons.prems(2) False by (simp add: fr)
    have "x \<notin> set (inorder sib)" using Cons.prems(3) False by (auto simp: fr)
    hence "rootp sib \<noteq> Some x" by (cases sib) auto
    thus ?thesis using n False a
      by (subst decrement_up.simps) (auto simp: fr get_def deref_def)
  qed
qed

section \<open>Linking the new leaf\<close>

lemma rootp_plug: "c \<noteq> [] \<Longrightarrow> rootp (plug c s) = rootp (plug c s')"
proof (induction c arbitrary: s s')
  case Nil
  thus ?case by simp
next
  case (Cons fr c)
  obtain d a sib where fr: "fr = (d, a, sib)" by (cases fr)
  show ?case
  proof (cases "c = []")
    case True
    thus ?thesis by (simp add: fr)
  next
    case False
    from Cons.IH[OF False] show ?thesis by simp
  qed
qed

lemma links_upd_other: "a \<noteq> b \<Longrightarrow> links (h(b := x)) a = links h a"
  by (simp add: links_def)

lemma link_leaf_ok:
  fixes h0 :: "('k, 'v) store"
  assumes wfc0: "wfc h0 (Some H) Z None"
    and hdr: "header_ok h0 H (plug Z Tip)"
    and dist: "distinct (before Z @ after Z)"
    and Hn: "H \<notin> set (before Z @ after Z)"
    and new: "new \<notin> set (before Z @ after Z)" "new \<noteq> H"
    and h: "h = h0(new \<mapsto> \<lparr>parent = hole_parent (Some H) Z, left = None, right = None,
              balance = 0, val = v\<rparr>)"
  shows "\<exists>h1. link_leaf (top_dir Z) (hole_parent (Some H) Z) (Some new) H h = Some h1
      \<and> wfc h1 (Some H) Z (Some new)
      \<and> h1 new = h new
      \<and> header_ok h1 H (plug Z (Br Tip new Tip))
      \<and> (\<forall>a. map_option balance (h1 a) = map_option balance (h a)
             \<and> map_option val (h1 a) = map_option val (h a))"
proof (cases Z)
  case Nil
  from hdr obtain nH where nH: "h0 H = Some nH" by (auto simp: header_ok_def split: option.splits)
  let ?h1 = "h(H \<mapsto> nH\<lparr>left := Some new, parent := Some new, right := Some new\<rparr>)"
  have "link_leaf (top_dir Z) (hole_parent (Some H) Z) (Some new) H h = Some ?h1"
    using nH new by (simp add: Nil link_leaf_def modify_def deref_def h)
  moreover have "header_ok ?h1 H (plug Z (Br Tip new Tip))"
    by (simp add: Nil header_ok_def)
  ultimately show ?thesis using new nH by (auto simp: Nil h)
next
  case (Cons fr c)
  obtain d y sib where fr: "fr = (d, y, sib)" by (cases fr)
  from hdr obtain nH where nH: "h0 H = Some nH" "parent nH = rootp (plug Z Tip)"
     "left nH = Some (if inorder (plug Z Tip) = [] then H else hd (inorder (plug Z Tip)))"
     "right nH = Some (if inorder (plug Z Tip) = [] then H else last (inorder (plug Z Tip)))"
    by (auto simp: header_ok_def split: option.splits)
  from wfc0 obtain ny where ny: "h0 y = Some ny" "parent ny = hole_parent (Some H) c"
     "if d then left ny = None \<and> right ny = rootp sib else right ny = None \<and> left ny = rootp sib"
     "wfs h0 (Some y) sib" "wfc h0 (Some H) c (Some y)"
    by (auto simp: Cons fr split: option.splits)
  have yH: "y \<noteq> H" using Hn by (cases d) (auto simp: Cons fr)
  have ynew: "y \<noteq> new" using new by (cases d) (auto simp: Cons fr)
  have io: "inorder (plug Z Tip) = before Z @ after Z" by (simp add: inorder_plug)
  have io1: "inorder (plug Z (Br Tip new Tip)) = before Z @ new # after Z"
    by (simp add: inorder_plug)
  have rp: "rootp (plug Z (Br Tip new Tip)) = rootp (plug Z Tip)"
    by (rule rootp_plug) (simp add: Cons)
  show ?thesis
  proof (cases d)
    case True
    let ?ny = "ny\<lparr>left := Some new\<rparr>"
    let ?nH = "if before Z = [] then nH\<lparr>left := Some new\<rparr> else nH"
    let ?h1 = "h(y \<mapsto> ?ny, H \<mapsto> ?nH)"
    have aft: "after Z = y # inorder sib @ after c" using True by (simp add: Cons fr)
    have hl: "(Some y = left nH) = (before Z = [])"
    proof (cases "before Z = []")
      case True
      thus ?thesis using nH(3) aft by (simp add: io)
    next
      case False
      hence "hd (before Z @ after Z) = hd (before Z)" by simp
      moreover have "hd (before Z) \<in> set (before Z)" using False by simp
      moreover have "y \<notin> set (before Z)" using dist aft by auto
      ultimately show ?thesis using nH(3) False by (auto simp: io)
    qed
    have run: "link_leaf (top_dir Z) (hole_parent (Some H) Z) (Some new) H h = Some ?h1"
      using nH(1) ny(1) yH ynew new hl True
      by (auto simp: Cons fr link_leaf_def modify_def deref_def get_def h fun_upd_twist)
    have lk: "\<And>a. a \<in> set (before c @ after c) \<Longrightarrow> links ?h1 a = links h0 a"
      using dist Hn new True by (auto simp: Cons fr h links_def)
    have lks: "\<And>a. a \<in> set (inorder sib) \<Longrightarrow> links ?h1 a = links h0 a"
      using dist Hn new True by (auto simp: Cons fr h links_def)
    have w1: "wfc ?h1 (Some H) c (Some y)" using ny(5) wfc_cong[of c ?h1 h0, OF lk] by simp
    have w2: "wfs ?h1 (Some y) sib" using ny(4) wfs_cong[of sib ?h1 h0, OF lks] by simp
    have wfc1: "wfc ?h1 (Some H) Z (Some new)"
      using w1 w2 ny yH True by (simp add: Cons fr)
    have hd1: "header_ok ?h1 H (plug Z (Br Tip new Tip))"
      using nH rp aft by (auto simp: header_ok_def io io1 hd_append)
    show ?thesis using run wfc1 hd1 yH ynew new nH(1) ny(1) by (auto simp: h)
  next
    case False
    let ?ny = "ny\<lparr>right := Some new\<rparr>"
    let ?nH = "if after Z = [] then nH\<lparr>right := Some new\<rparr> else nH"
    let ?h1 = "h(y \<mapsto> ?ny, H \<mapsto> ?nH)"
    have bef: "before Z = before c @ inorder sib @ [y]" using False by (simp add: Cons fr)
    have hr: "(Some y = right nH) = (after Z = [])"
    proof (cases "after Z = []")
      case True
      thus ?thesis using nH(4) bef by (simp add: io)
    next
      case False
      hence "last (before Z @ after Z) = last (after Z)" by simp
      moreover have "last (after Z) \<in> set (after Z)" using False by simp
      moreover have "y \<notin> set (after Z)" using dist bef by auto
      ultimately show ?thesis using nH(4) False by (auto simp: io)
    qed
    have run: "link_leaf (top_dir Z) (hole_parent (Some H) Z) (Some new) H h = Some ?h1"
      using nH(1) ny(1) yH ynew new hr False
      by (auto simp: Cons fr link_leaf_def modify_def deref_def get_def h fun_upd_twist)
    have lk: "\<And>a. a \<in> set (before c @ after c) \<Longrightarrow> links ?h1 a = links h0 a"
      using dist Hn new False by (auto simp: Cons fr h links_def)
    have lks: "\<And>a. a \<in> set (inorder sib) \<Longrightarrow> links ?h1 a = links h0 a"
      using dist Hn new False by (auto simp: Cons fr h links_def)
    have w1: "wfc ?h1 (Some H) c (Some y)" using ny(5) wfc_cong[of c ?h1 h0, OF lk] by simp
    have w2: "wfs ?h1 (Some y) sib" using ny(4) wfs_cong[of sib ?h1 h0, OF lks] by simp
    have wfc1: "wfc ?h1 (Some H) Z (Some new)"
      using w1 w2 ny yH False by (simp add: Cons fr)
    have bne: "before Z \<noteq> []" using bef by simp
    have hd1: "header_ok ?h1 H (plug Z (Br Tip new Tip))"
      using nH rp bne by (auto simp: header_ok_def io io1 hd_append)
    show ?thesis using run wfc1 hd1 yH ynew new nH(1) ny(1) by (auto simp: h)
  qed
qed

section \<open>The walk from the new leaf up to the candidate\<close>

lemma cand_cong:
  "(\<And>a. a \<in> set (before c @ after c) \<Longrightarrow> b' a = b a) \<Longrightarrow> cand b' tp c = cand b tp c"
proof (induction c)
  case Nil
  show ?case by simp
next
  case (Cons fr c)
  obtain d a sib where fr: "fr = (d, a, sib)" by (cases fr)
  have "b' a = b a" using Cons.prems by (cases d) (auto simp: fr)
  moreover have "cand b' tp c = cand b tp c"
    using Cons.prems by (intro Cons.IH) (cases d; auto simp: fr)
  ultimately show ?case by (simp add: fr)
qed

lemma cut_cong:
  "(\<And>a. a \<in> set (before c @ after c) \<Longrightarrow> b' a = b a) \<Longrightarrow> cut b' c = cut b c"
proof (induction c)
  case Nil
  show ?case by simp
next
  case (Cons fr c)
  obtain d a sib where fr: "fr = (d, a, sib)" by (cases fr)
  have "b' a = b a" using Cons.prems by (cases d) (auto simp: fr)
  moreover have "cut b' c = cut b c"
    using Cons.prems by (intro Cons.IH) (cases d; auto simp: fr)
  ultimately show ?case by (simp add: fr)
qed

lemma cand_in_context:
  "cand b (Some H) c = Some a \<Longrightarrow> a = H \<or> a \<in> set (before c @ after c)"
  by (induction c) (auto split: if_splits)

lemma avl_update_ok:
  fixes h :: "('k, 'v) store"
  assumes "wfc h (Some H) Z (Some x)"
    and "h x = Some nx" "parent nx = hole_parent (Some H) Z"
    and "h H = Some nH"
    and "distinct (before Z @ x # after Z)"
    and "H \<notin> set (before Z @ x # after Z)"
  shows "\<exists>h' nH'. avl_update (Some x) (cand (bal h) (Some H) Z) H h = Some h'
      \<and> (\<forall>a. a \<noteq> H \<longrightarrow> h' a = bumps (cut (bal h) Z) h a)
      \<and> h' H = Some nH' \<and> parent nH' = parent nH \<and> left nH' = left nH
      \<and> right nH' = right nH \<and> val nH' = val nH"
  using assms
proof (induction Z arbitrary: h x nx nH)
  case Nil
  let ?h1 = "h(H \<mapsto> nH\<lparr>balance := balance nH - 1\<rparr>)"
  let ?h2 = "h(H \<mapsto> nH\<lparr>balance := balance nH + 1\<rparr>)"
  have "avl_update (Some x) (cand (bal h) (Some H) []) H h
        = Some (if left nH = Some x then ?h1 else ?h2)"
    using Nil by (subst avl_update.simps) (simp add: get_def deref_def modify_def)
  thus ?case by auto
next
  case (Cons fr c)
  obtain d a sib where fr: "fr = (d, a, sib)" by (cases fr)
  from Cons.prems(1) obtain n where n: "h a = Some n" "parent n = hole_parent (Some H) c"
     "if d then left n = Some x \<and> right n = rootp sib else right n = Some x \<and> left n = rootp sib"
     "wfc h (Some H) c (Some a)"
    by (auto simp: fr split: option.splits)
  have aH: "a \<noteq> H" using Cons.prems(6) by (cases d) (auto simp: fr)
  have "x \<notin> set (inorder sib)" using Cons.prems(5) by (cases d) (auto simp: fr)
  hence xs: "rootp sib \<noteq> Some x" by (cases sib) auto
  have lx: "(left n = Some x) = d" using n(3) xs by (cases d) auto
  let ?h1 = "h(a := map_option (bump d) (h a))"
  have step: "modify (Some a) (\<lambda>n. n\<lparr>balance := balance n + (if d then - 1 else 1)\<rparr>) h = Some ?h1"
    using n(1) by (simp add: modify_def deref_def bump_def)
  show ?case
  proof (cases "bal h a \<noteq> 0")
    case True
    have "avl_update (Some x) (cand (bal h) (Some H) (fr # c)) H h = Some ?h1"
      using True Cons.prems(2,3) n(1) lx step
      by (subst avl_update.simps) (auto simp: fr get_def deref_def)
    thus ?thesis using True aH Cons.prems(4) by (auto simp: fr)
  next
    case False
    have ac: "a \<notin> set (before c @ after c)" using Cons.prems(5) by (cases d) (auto simp: fr)
    have ne: "cand (bal h) (Some H) c \<noteq> Some a"
      using cand_in_context[of "bal h" H c a] aH ac by auto
    have lk: "\<And>a'. a' \<in> set (before c @ after c) \<Longrightarrow> links ?h1 a' = links h a'"
      using ac by (auto simp: links_def)
    have w: "wfc ?h1 (Some H) c (Some a)" using n(4) wfc_cong[of c ?h1 h, OF lk] by simp
    have h1a: "?h1 a = Some (bump d n)" using n(1) by simp
    have pa: "parent (bump d n) = hole_parent (Some H) c" using n(2) by (simp add: bump_def)
    have h1H: "?h1 H = Some nH" using aH Cons.prems(4) by simp
    have di: "distinct (before c @ a # after c)" using Cons.prems(5) by (cases d) (auto simp: fr)
    have Hn: "H \<notin> set (before c @ a # after c)" using Cons.prems(6) by (cases d) (auto simp: fr)
    from Cons.IH[OF w h1a pa h1H di Hn] obtain h' nH' where
      r: "avl_update (Some a) (cand (bal ?h1) (Some H) c) H ?h1 = Some h'"
         "\<forall>a'. a' \<noteq> H \<longrightarrow> h' a' = bumps (cut (bal ?h1) c) ?h1 a'"
         "h' H = Some nH'" "parent nH' = parent nH" "left nH' = left nH"
         "right nH' = right nH" "val nH' = val nH"
      by blast
    have bc: "\<And>a'. a' \<in> set (before c @ after c) \<Longrightarrow> bal ?h1 a' = bal h a'"
      using ac by (auto simp: bal_def)
    have c1: "cand (bal ?h1) (Some H) c = cand (bal h) (Some H) c" by (rule cand_cong[OF bc])
    have c2: "cut (bal ?h1) c = cut (bal h) c" by (rule cut_cong[OF bc])
    have "avl_update (Some x) (cand (bal h) (Some H) (fr # c)) H h = Some h'"
      using False Cons.prems(2,3) n(1) lx step ne r(1) c1
      by (subst avl_update.simps) (auto simp: fr get_def deref_def)
    thus ?thesis using r False c2 by (auto simp: fr)
  qed
qed

section \<open>Rotations\<close>

lemma wfs_reparent:
  assumes "wfs h p (Br l a r)" "distinct (inorder (Br l a r))"
    and "h a = Some n" "h' a = Some n'" "parent n' = p'" "left n' = left n" "right n' = right n"
    and "\<And>a'. a' \<in> set (inorder l @ inorder r) \<Longrightarrow> links h' a' = links h a'"
  shows "wfs h' p' (Br l a r)"
proof -
  have "wfs h' (Some a) l = wfs h (Some a) l" using assms(8) by (intro wfs_cong) simp
  moreover have "wfs h' (Some a) r = wfs h (Some a) r" using assms(8) by (intro wfs_cong) simp
  ultimately show ?thesis using assms(1,3-7) by simp
qed

lemma wfs_reparent_any:
  assumes "wfs h p s" "distinct (inorder s)"
    and "\<And>a. rootp s = Some a \<Longrightarrow> \<exists>n n'. h a = Some n \<and> h' a = Some n' \<and> parent n' = p'
           \<and> left n' = left n \<and> right n' = right n"
    and "\<And>a'. a' \<in> set (inorder s) \<Longrightarrow> rootp s \<noteq> Some a' \<Longrightarrow> links h' a' = links h a'"
  shows "wfs h' p' s"
proof (cases s)
  case Tip
  thus ?thesis by simp
next
  case (Br l a r)
  from assms(3)[of a] obtain n n' where n: "h a = Some n" "h' a = Some n'" "parent n' = p'"
     "left n' = left n" "right n' = right n"
    by (auto simp: Br)
  have "\<And>a'. a' \<in> set (inorder l @ inorder r) \<Longrightarrow> links h' a' = links h a'"
    using assms(2,4) by (auto simp: Br)
  from wfs_reparent[OF assms(1)[unfolded Br] assms(2)[unfolded Br] n this]
  show ?thesis by (simp add: Br)
qed

lemma wfc_rehole:
  assumes "wfc h tp ((d, a, sib) # c) q" "distinct (before ((d, a, sib) # c) @ after ((d, a, sib) # c))"
    and "h a = Some n" "h' a = Some n'" "parent n' = parent n"
    and "if d then left n' = q' \<and> right n' = right n else right n' = q' \<and> left n' = left n"
    and "\<And>a'. a' \<in> set (before ((d, a, sib) # c) @ after ((d, a, sib) # c)) \<Longrightarrow> a' \<noteq> a
           \<Longrightarrow> links h' a' = links h a'"
  shows "wfc h' tp ((d, a, sib) # c) q'"
proof -
  have "wfs h' (Some a) sib = wfs h (Some a) sib"
    using assms(2,7) by (intro wfs_cong) (cases d; auto)
  moreover have "wfc h' tp c (Some a) = wfc h tp c (Some a)"
    using assms(2,7) by (intro wfc_cong) (cases d; auto)
  ultimately show ?thesis using assms(1,3-6) by (cases d) auto
qed

lemma rootp_plug_in:
  "c \<noteq> [] \<Longrightarrow> \<exists>a. rootp (plug c s) = Some a \<and> a \<in> set (before c @ after c)"
proof (induction c arbitrary: s)
  case Nil
  thus ?case by simp
next
  case (Cons fr c)
  obtain d a sib where fr: "fr = (d, a, sib)" by (cases fr)
  show ?case
  proof (cases "c = []")
    case True
    thus ?thesis by (cases d) (auto simp: fr)
  next
    case False
    from Cons.IH[OF False, of "wrap fr s"] show ?thesis by (cases d) (auto simp: fr)
  qed
qed

lemma rotation_left_run:
  fixes h :: "('k, 'v) store"
  assumes wc: "wfc h (Some H) ca (Some x)"
    and ws: "wfs h (hole_parent (Some H) ca) (Br l x (Br rl y rr))"
    and di: "distinct (inorder (plug ca (Br l x (Br rl y rr))))"
    and Hn: "H \<notin> set (inorder (plug ca (Br l x (Br rl y rr))))"
    and hH: "h H = Some nH" "parent nH = rootp (plug ca (Br l x (Br rl y rr)))"
  shows "rotation_left (Some x) H h = Some (rot_left_store H ca x y rl h)"
proof -
  from ws obtain nx ny where nx: "h x = Some nx" "parent nx = hole_parent (Some H) ca"
      "left nx = rootp l" "right nx = Some y"
    and ny: "h y = Some ny" "parent ny = Some x" "left ny = rootp rl" "right ny = rootp rr"
    and wrl: "wfs h (Some y) rl"
    by (auto split: option.splits)
  have io: "inorder (plug ca (Br l x (Br rl y rr)))
        = before ca @ (inorder l @ x # inorder rl @ y # inorder rr) @ after ca"
    by (simp add: inorder_plug)
  have di': "distinct (before ca @ inorder l @ x # inorder rl @ y # inorder rr @ after ca)"
    using di by (simp add: io)
  have Hn': "H \<notin> set (before ca @ inorder l @ x # inorder rl @ y # inorder rr @ after ca)"
    using Hn by (simp add: io)
  have xy: "x \<noteq> y" "x \<noteq> H" "y \<noteq> H" using di' Hn' by auto
  show ?thesis
  proof (cases ca)
    case Nil
    have root: "parent nH = Some x" using hH(2) by (simp add: Nil)
    show ?thesis
    proof (cases rl)
      case Tip
      show ?thesis using nx ny hH(1) root xy
        by (simp add: rotation_left_def rot_left_store_def Nil Tip get_def deref_def modify_def
            fun_upd_twist)
    next
      case (Br b1 b b2)
      from wrl obtain nb where nb: "h b = Some nb" by (auto simp: Br split: option.splits)
      have b: "b \<noteq> x" "b \<noteq> y" "b \<noteq> H" using di' Hn' by (auto simp: Br)
      show ?thesis using nx ny hH(1) root xy nb b
        by (simp add: rotation_left_def rot_left_store_def Nil Br get_def deref_def modify_def
            fun_upd_twist)
    qed
  next
    case (Cons fr c)
    obtain d a sib where fr: "fr = (d, a, sib)" by (cases fr)
    from wc obtain na where na: "h a = Some na"
       "if d then left na = Some x \<and> right na = rootp sib
        else right na = Some x \<and> left na = rootp sib"
      by (auto simp: Cons fr split: option.splits)
    have a: "a \<noteq> x" "a \<noteq> y" "a \<noteq> H" using di' Hn' by (cases d; auto simp: Cons fr)+
    have "x \<notin> set (inorder sib)" using di' by (cases d) (auto simp: Cons fr)
    hence "rootp sib \<noteq> Some x" by (cases sib) auto
    hence lx: "(left na = Some x) = d" using na(2) by (cases d) auto
    from rootp_plug_in[of ca "Br l x (Br rl y rr)"] obtain r where
      r: "rootp (plug ca (Br l x (Br rl y rr))) = Some r" "r \<in> set (before ca @ after ca)"
      by (auto simp: Cons)
    have "r \<noteq> x" using r(2) di' by auto
    hence root: "parent nH \<noteq> Some x" using hH(2) r(1) by simp
    have pa: "hole_parent (Some H) ca = Some a" by (simp add: Cons fr)
    show ?thesis
    proof (cases rl)
      case Tip
      show ?thesis using nx ny hH(1) root xy na(1) lx a pa
        by (cases d)
           (simp_all add: rotation_left_def rot_left_store_def Cons fr Tip get_def deref_def
            modify_def fun_upd_twist)
    next
      case (Br b1 b b2)
      from wrl obtain nb where nb: "h b = Some nb" by (auto simp: Br split: option.splits)
      have b: "b \<noteq> x" "b \<noteq> y" "b \<noteq> H" "b \<noteq> a"
        using di' Hn' by (cases d; auto simp: Br Cons fr)+
      show ?thesis using nx ny hH(1) root xy na(1) lx a pa nb b
        by (cases d)
           (simp_all add: rotation_left_def rot_left_store_def Cons fr Br get_def deref_def
            modify_def fun_upd_twist)
    qed
  qed
qed

lemma rot_left_store_content:
  "map_option balance (rot_left_store H ca x y mid h a) = map_option balance (h a)
   \<and> map_option val (rot_left_store H ca x y mid h a) = map_option val (h a)"
  by (cases "h a") (auto simp: rot_left_store_def Let_def split: option.splits list.splits)

lemma rot_left_store_ok:
  fixes h :: "('k, 'v) store"
  assumes wc: "wfc h (Some H) ca (Some x)"
    and ws: "wfs h (hole_parent (Some H) ca) (Br l x (Br rl y rr))"
    and di: "distinct (inorder (plug ca (Br l x (Br rl y rr))))"
    and Hn: "H \<notin> set (inorder (plug ca (Br l x (Br rl y rr))))"
    and hH: "h H = Some nH" "parent nH = rootp (plug ca (Br l x (Br rl y rr)))"
  defines "h' \<equiv> rot_left_store H ca x y rl h"
  shows "wfc h' (Some H) ca (Some y)"
    and "wfs h' (hole_parent (Some H) ca) (Br (Br l x rl) y rr)"
    and "\<exists>nH'. h' H = Some nH' \<and> parent nH' = rootp (plug ca (Br (Br l x rl) y rr))
           \<and> left nH' = left nH \<and> right nH' = right nH"
proof -
  from ws obtain nx ny where nx: "h x = Some nx" "parent nx = hole_parent (Some H) ca"
      "left nx = rootp l" "right nx = Some y"
    and ny: "h y = Some ny" "parent ny = Some x" "left ny = rootp rl" "right ny = rootp rr"
    and wl: "wfs h (Some x) l" and wrl: "wfs h (Some y) rl" and wrr: "wfs h (Some y) rr"
    by (auto split: option.splits)
  have io: "inorder (plug ca (Br l x (Br rl y rr)))
        = before ca @ (inorder l @ x # inorder rl @ y # inorder rr) @ after ca"
    by (simp add: inorder_plug)
  have di': "distinct (before ca @ inorder l @ x # inorder rl @ y # inorder rr @ after ca)"
    using di by (simp add: io)
  have Hn': "H \<notin> set (before ca @ inorder l @ x # inorder rl @ y # inorder rr @ after ca)"
    using Hn by (simp add: io)
  have xy: "x \<noteq> y" "x \<noteq> H" "y \<noteq> H" using di' Hn' by auto
  have rlx: "rootp rl \<noteq> Some x" "rootp rl \<noteq> Some y" "rootp rl \<noteq> Some H"
    using di' Hn' by (cases rl; auto)+
  have top: "\<And>d a sib c. ca = (d, a, sib) # c \<Longrightarrow> a \<noteq> x \<and> a \<noteq> y \<and> a \<noteq> H \<and> rootp rl \<noteq> Some a"
    using di' Hn' by (cases rl) (auto split: if_splits)
  have F1: "h' y = Some (ny\<lparr>parent := hole_parent (Some H) ca, left := Some x\<rparr>)"
    using ny(1) by (simp add: h'_def rot_left_store_def Let_def)
  have F2: "h' x = Some (nx\<lparr>right := rootp rl, parent := Some y\<rparr>)"
    using nx(1) xy by (simp add: h'_def rot_left_store_def Let_def)
  have F3: "\<And>b. rootp rl = Some b \<Longrightarrow> h' b = map_option (\<lambda>n. n\<lparr>parent := Some x\<rparr>) (h b)"
    using rlx top
    by (auto simp: h'_def rot_left_store_def Let_def split: list.splits)
  have F6: "\<And>a'. a' \<noteq> x \<and> a' \<noteq> y \<and> rootp rl \<noteq> Some a' \<and> a' \<noteq> H
      \<and> (\<forall>d a sib c. ca = (d, a, sib) # c \<longrightarrow> a' \<noteq> a) \<Longrightarrow> h' a' = h a'"
    by (auto simp: h'_def rot_left_store_def Let_def split: list.splits option.splits)
  have Fl: "\<And>a'. a' \<in> set (inorder l @ inorder rr) \<Longrightarrow> h' a' = h a'"
  proof -
    fix a' assume a': "a' \<in> set (inorder l @ inorder rr)"
    have "a' \<noteq> x" "a' \<noteq> y" "a' \<noteq> H" using a' di' Hn' by auto
    moreover have "rootp rl \<noteq> Some a'" using a' di' by (cases rl) auto
    moreover have "\<And>d a sib c. ca = (d, a, sib) # c \<Longrightarrow> a' \<noteq> a"
      using a' di' by (auto split: if_splits)
    ultimately show "h' a' = h a'" by (intro F6) blast
  qed
  have Frl: "\<And>a'. a' \<in> set (inorder rl) \<Longrightarrow> rootp rl \<noteq> Some a' \<Longrightarrow> h' a' = h a'"
  proof -
    fix a' assume a': "a' \<in> set (inorder rl)" "rootp rl \<noteq> Some a'"
    have "a' \<noteq> x" "a' \<noteq> y" "a' \<noteq> H" using a' di' Hn' by auto
    moreover have "\<And>d a sib c. ca = (d, a, sib) # c \<Longrightarrow> a' \<noteq> a"
      using a' di' by (auto split: if_splits)
    ultimately show "h' a' = h a'" using a'(2) by (intro F6) blast
  qed
  have w1: "wfs h' (Some x) l"
    using wl Fl by (subst wfs_cong[of l h' h]) (auto simp: links_def)
  have w3: "wfs h' (Some y) rr"
    using wrr Fl by (subst wfs_cong[of rr h' h]) (auto simp: links_def)
  have w2: "wfs h' (Some x) rl"
  proof (rule wfs_reparent_any[OF wrl])
    show "distinct (inorder rl)" using di' by simp
  next
    fix b assume b: "rootp rl = Some b"
    then obtain nb where "h b = Some nb" using wrl by (cases rl) (auto split: option.splits)
    thus "\<exists>n n'. h b = Some n \<and> h' b = Some n' \<and> parent n' = Some x
           \<and> left n' = left n \<and> right n' = right n"
      using F3[OF b] by simp
  next
    fix a' assume "a' \<in> set (inorder rl)" "rootp rl \<noteq> Some a'"
    thus "links h' a' = links h a'" using Frl by (simp add: links_def)
  qed
  show "wfs h' (hole_parent (Some H) ca) (Br (Br l x rl) y rr)"
    using F1 F2 w1 w2 w3 nx ny by simp
  show "wfc h' (Some H) ca (Some y)"
  proof (cases ca)
    case Nil
    thus ?thesis by simp
  next
    case (Cons fr c)
    obtain d a sib where fr: "fr = (d, a, sib)" by (cases fr)
    from wc obtain na where na: "h a = Some na" by (auto simp: Cons fr split: option.splits)
    have a: "a \<noteq> x" "a \<noteq> y" "a \<noteq> H" "rootp rl \<noteq> Some a" using top[of d a sib c] by (auto simp: Cons fr)
    have F4: "h' a = Some (if d then na\<lparr>left := Some y\<rparr> else na\<lparr>right := Some y\<rparr>)"
      using na a by (cases rl) (auto simp: h'_def rot_left_store_def Let_def Cons fr)
    have "wfc h' (Some H) ((d, a, sib) # c) (Some y)"
    proof (rule wfc_rehole[where h = h and q = "Some x" and n = na])
      show "wfc h (Some H) ((d, a, sib) # c) (Some x)" using wc by (simp add: Cons fr)
      show "distinct (before ((d, a, sib) # c) @ after ((d, a, sib) # c))"
        using di' by (auto simp: Cons fr)
      show "h a = Some na" by (rule na)
      show "h' a = Some (if d then na\<lparr>left := Some y\<rparr> else na\<lparr>right := Some y\<rparr>)" by (rule F4)
      show "parent (if d then na\<lparr>left := Some y\<rparr> else na\<lparr>right := Some y\<rparr>) = parent na" by simp
      show "if d then left (if d then na\<lparr>left := Some y\<rparr> else na\<lparr>right := Some y\<rparr>) = Some y
                \<and> right (if d then na\<lparr>left := Some y\<rparr> else na\<lparr>right := Some y\<rparr>) = right na
            else right (if d then na\<lparr>left := Some y\<rparr> else na\<lparr>right := Some y\<rparr>) = Some y
                \<and> left (if d then na\<lparr>left := Some y\<rparr> else na\<lparr>right := Some y\<rparr>) = left na"
        by simp
    next
      fix a' assume a': "a' \<in> set (before ((d, a, sib) # c) @ after ((d, a, sib) # c))" "a' \<noteq> a"
      have "a' \<noteq> x" "a' \<noteq> y" "a' \<noteq> H" using a'(1) di' Hn' by (auto simp: Cons fr)
      moreover have "rootp rl \<noteq> Some a'" using a'(1) di' by (cases rl) (auto simp: Cons fr)
      moreover have "\<And>d' a'' sib' c'. ca = (d', a'', sib') # c' \<Longrightarrow> a' \<noteq> a''"
        using a'(2) by (simp add: Cons fr)
      ultimately have "h' a' = h a'" by (intro F6) blast
      thus "links h' a' = links h a'" by (simp add: links_def)
    qed
    thus ?thesis by (simp add: Cons fr)
  qed
  show "\<exists>nH'. h' H = Some nH' \<and> parent nH' = rootp (plug ca (Br (Br l x rl) y rr))
           \<and> left nH' = left nH \<and> right nH' = right nH"
  proof (cases ca)
    case Nil
    have "h' H = Some (nH\<lparr>parent := Some y\<rparr>)"
      using hH(1) xy rlx by (cases rl) (auto simp: h'_def rot_left_store_def Let_def Nil)
    thus ?thesis by (simp add: Nil)
  next
    case (Cons fr c)
    obtain d a sib where fr: "fr = (d, a, sib)" by (cases fr)
    have a: "a \<noteq> H" using top[of d a sib c] by (auto simp: Cons fr)
    have "h' H = Some nH"
      using hH(1) xy rlx a by (cases rl) (auto simp: h'_def rot_left_store_def Let_def Cons fr)
    moreover have "rootp (plug ca (Br (Br l x rl) y rr)) = rootp (plug ca (Br l x (Br rl y rr)))"
      by (rule rootp_plug) (simp add: Cons)
    ultimately show ?thesis using hH(2) by simp
  qed
qed

lemma rotation_right_run:
  fixes h :: "('k, 'v) store"
  assumes wc: "wfc h (Some H) ca (Some x)"
    and ws: "wfs h (hole_parent (Some H) ca) (Br (Br ll y lr) x r)"
    and di: "distinct (inorder (plug ca (Br (Br ll y lr) x r)))"
    and Hn: "H \<notin> set (inorder (plug ca (Br (Br ll y lr) x r)))"
    and hH: "h H = Some nH" "parent nH = rootp (plug ca (Br (Br ll y lr) x r))"
  shows "rotation_right (Some x) H h = Some (rot_right_store H ca x y lr h)"
proof -
  from ws obtain nx ny where nx: "h x = Some nx" "parent nx = hole_parent (Some H) ca"
      "right nx = rootp r" "left nx = Some y"
    and ny: "h y = Some ny" "parent ny = Some x" "right ny = rootp lr" "left ny = rootp ll"
    and wlr: "wfs h (Some y) lr"
    by (auto split: option.splits)
  have io: "inorder (plug ca (Br (Br ll y lr) x r))
        = before ca @ (inorder ll @ y # inorder lr @ x # inorder r) @ after ca"
    by (simp add: inorder_plug)
  have di': "distinct (before ca @ inorder ll @ y # inorder lr @ x # inorder r @ after ca)"
    using di by (simp add: io)
  have Hn': "H \<notin> set (before ca @ inorder ll @ y # inorder lr @ x # inorder r @ after ca)"
    using Hn by (simp add: io)
  have xy: "x \<noteq> y" "x \<noteq> H" "y \<noteq> H" using di' Hn' by auto
  show ?thesis
  proof (cases ca)
    case Nil
    have root: "parent nH = Some x" using hH(2) by (simp add: Nil)
    show ?thesis
    proof (cases lr)
      case Tip
      show ?thesis using nx ny hH(1) root xy
        by (simp add: rotation_right_def rot_right_store_def Nil Tip get_def deref_def modify_def
            fun_upd_twist)
    next
      case (Br b1 b b2)
      from wlr obtain nb where nb: "h b = Some nb" by (auto simp: Br split: option.splits)
      have b: "b \<noteq> x" "b \<noteq> y" "b \<noteq> H" using di' Hn' by (auto simp: Br)
      show ?thesis using nx ny hH(1) root xy nb b
        by (simp add: rotation_right_def rot_right_store_def Nil Br get_def deref_def modify_def
            fun_upd_twist)
    qed
  next
    case (Cons fr c)
    obtain d a sib where fr: "fr = (d, a, sib)" by (cases fr)
    from wc obtain na where na: "h a = Some na"
       "if d then left na = Some x \<and> right na = rootp sib
        else right na = Some x \<and> left na = rootp sib"
      by (auto simp: Cons fr split: option.splits)
    have a: "a \<noteq> x" "a \<noteq> y" "a \<noteq> H" using di' Hn' by (cases d; auto simp: Cons fr)+
    have "x \<notin> set (inorder sib)" using di' by (cases d) (auto simp: Cons fr)
    hence "rootp sib \<noteq> Some x" by (cases sib) auto
    hence lx: "(right na = Some x) = (\<not> d)" using na(2) by (cases d) auto
    from rootp_plug_in[of ca "Br (Br ll y lr) x r"] obtain rt where
      r: "rootp (plug ca (Br (Br ll y lr) x r)) = Some rt" "rt \<in> set (before ca @ after ca)"
      by (auto simp: Cons)
    have "rt \<noteq> x" using r(2) di' by auto
    hence root: "parent nH \<noteq> Some x" using hH(2) r(1) by simp
    have pa: "hole_parent (Some H) ca = Some a" by (simp add: Cons fr)
    show ?thesis
    proof (cases lr)
      case Tip
      show ?thesis using nx ny hH(1) root xy na(1) lx a pa
        by (cases d)
           (simp_all add: rotation_right_def rot_right_store_def Cons fr Tip get_def deref_def
            modify_def fun_upd_twist)
    next
      case (Br b1 b b2)
      from wlr obtain nb where nb: "h b = Some nb" by (auto simp: Br split: option.splits)
      have b: "b \<noteq> x" "b \<noteq> y" "b \<noteq> H" "b \<noteq> a"
        using di' Hn' by (cases d; auto simp: Br Cons fr)+
      show ?thesis using nx ny hH(1) root xy na(1) lx a pa nb b
        by (cases d)
           (simp_all add: rotation_right_def rot_right_store_def Cons fr Br get_def deref_def
            modify_def fun_upd_twist)
    qed
  qed
qed

lemma rot_right_store_content:
  "map_option balance (rot_right_store H ca x y mid h a) = map_option balance (h a)
   \<and> map_option val (rot_right_store H ca x y mid h a) = map_option val (h a)"
  by (cases "h a") (auto simp: rot_right_store_def Let_def split: option.splits list.splits)

lemma rot_right_store_ok:
  fixes h :: "('k, 'v) store"
  assumes wc: "wfc h (Some H) ca (Some x)"
    and ws: "wfs h (hole_parent (Some H) ca) (Br (Br ll y lr) x r)"
    and di: "distinct (inorder (plug ca (Br (Br ll y lr) x r)))"
    and Hn: "H \<notin> set (inorder (plug ca (Br (Br ll y lr) x r)))"
    and hH: "h H = Some nH" "parent nH = rootp (plug ca (Br (Br ll y lr) x r))"
  defines "h' \<equiv> rot_right_store H ca x y lr h"
  shows "wfc h' (Some H) ca (Some y)"
    and "wfs h' (hole_parent (Some H) ca) (Br ll y (Br lr x r))"
    and "\<exists>nH'. h' H = Some nH' \<and> parent nH' = rootp (plug ca (Br ll y (Br lr x r)))
           \<and> left nH' = left nH \<and> right nH' = right nH"
proof -
  from ws obtain nx ny where nx: "h x = Some nx" "parent nx = hole_parent (Some H) ca"
      "right nx = rootp r" "left nx = Some y"
    and ny: "h y = Some ny" "parent ny = Some x" "right ny = rootp lr" "left ny = rootp ll"
    and wr: "wfs h (Some x) r" and wlr: "wfs h (Some y) lr" and wll: "wfs h (Some y) ll"
    by (auto split: option.splits)
  have io: "inorder (plug ca (Br (Br ll y lr) x r))
        = before ca @ (inorder ll @ y # inorder lr @ x # inorder r) @ after ca"
    by (simp add: inorder_plug)
  have di': "distinct (before ca @ inorder ll @ y # inorder lr @ x # inorder r @ after ca)"
    using di by (simp add: io)
  have Hn': "H \<notin> set (before ca @ inorder ll @ y # inorder lr @ x # inorder r @ after ca)"
    using Hn by (simp add: io)
  have xy: "x \<noteq> y" "x \<noteq> H" "y \<noteq> H" using di' Hn' by auto
  have lrx: "rootp lr \<noteq> Some x" "rootp lr \<noteq> Some y" "rootp lr \<noteq> Some H"
    using di' Hn' by (cases lr; auto)+
  have top: "\<And>d a sib c. ca = (d, a, sib) # c \<Longrightarrow> a \<noteq> x \<and> a \<noteq> y \<and> a \<noteq> H \<and> rootp lr \<noteq> Some a"
    using di' Hn' by (cases lr) (auto split: if_splits)
  have F1: "h' y = Some (ny\<lparr>parent := hole_parent (Some H) ca, right := Some x\<rparr>)"
    using ny(1) by (simp add: h'_def rot_right_store_def Let_def)
  have F2: "h' x = Some (nx\<lparr>left := rootp lr, parent := Some y\<rparr>)"
    using nx(1) xy by (simp add: h'_def rot_right_store_def Let_def)
  have F3: "\<And>b. rootp lr = Some b \<Longrightarrow> h' b = map_option (\<lambda>n. n\<lparr>parent := Some x\<rparr>) (h b)"
    using lrx top
    by (auto simp: h'_def rot_right_store_def Let_def split: list.splits)
  have F6: "\<And>a'. a' \<noteq> x \<and> a' \<noteq> y \<and> rootp lr \<noteq> Some a' \<and> a' \<noteq> H
      \<and> (\<forall>d a sib c. ca = (d, a, sib) # c \<longrightarrow> a' \<noteq> a) \<Longrightarrow> h' a' = h a'"
    by (auto simp: h'_def rot_right_store_def Let_def split: list.splits option.splits)
  have Fl: "\<And>a'. a' \<in> set (inorder r @ inorder ll) \<Longrightarrow> h' a' = h a'"
  proof -
    fix a' assume a': "a' \<in> set (inorder r @ inorder ll)"
    have "a' \<noteq> x" "a' \<noteq> y" "a' \<noteq> H" using a' di' Hn' by auto
    moreover have "rootp lr \<noteq> Some a'" using a' di' by (cases lr) auto
    moreover have "\<And>d a sib c. ca = (d, a, sib) # c \<Longrightarrow> a' \<noteq> a"
      using a' di' by (auto split: if_splits)
    ultimately show "h' a' = h a'" by (intro F6) blast
  qed
  have Flr: "\<And>a'. a' \<in> set (inorder lr) \<Longrightarrow> rootp lr \<noteq> Some a' \<Longrightarrow> h' a' = h a'"
  proof -
    fix a' assume a': "a' \<in> set (inorder lr)" "rootp lr \<noteq> Some a'"
    have "a' \<noteq> x" "a' \<noteq> y" "a' \<noteq> H" using a' di' Hn' by auto
    moreover have "\<And>d a sib c. ca = (d, a, sib) # c \<Longrightarrow> a' \<noteq> a"
      using a' di' by (auto split: if_splits)
    ultimately show "h' a' = h a'" using a'(2) by (intro F6) blast
  qed
  have w1: "wfs h' (Some x) r"
    using wr Fl by (subst wfs_cong[of r h' h]) (auto simp: links_def)
  have w3: "wfs h' (Some y) ll"
    using wll Fl by (subst wfs_cong[of ll h' h]) (auto simp: links_def)
  have w2: "wfs h' (Some x) lr"
  proof (rule wfs_reparent_any[OF wlr])
    show "distinct (inorder lr)" using di' by simp
  next
    fix b assume b: "rootp lr = Some b"
    then obtain nb where "h b = Some nb" using wlr by (cases lr) (auto split: option.splits)
    thus "\<exists>n n'. h b = Some n \<and> h' b = Some n' \<and> parent n' = Some x
           \<and> left n' = left n \<and> right n' = right n"
      using F3[OF b] by simp
  next
    fix a' assume "a' \<in> set (inorder lr)" "rootp lr \<noteq> Some a'"
    thus "links h' a' = links h a'" using Flr by (simp add: links_def)
  qed
  show "wfs h' (hole_parent (Some H) ca) (Br ll y (Br lr x r))"
    using F1 F2 w1 w2 w3 nx ny by simp
  show "wfc h' (Some H) ca (Some y)"
  proof (cases ca)
    case Nil
    thus ?thesis by simp
  next
    case (Cons fr c)
    obtain d a sib where fr: "fr = (d, a, sib)" by (cases fr)
    from wc obtain na where na: "h a = Some na" by (auto simp: Cons fr split: option.splits)
    have a: "a \<noteq> x" "a \<noteq> y" "a \<noteq> H" "rootp lr \<noteq> Some a" using top[of d a sib c] by (auto simp: Cons fr)
    have F4: "h' a = Some (if d then na\<lparr>left := Some y\<rparr> else na\<lparr>right := Some y\<rparr>)"
      using na a by (cases lr) (auto simp: h'_def rot_right_store_def Let_def Cons fr)
    have "wfc h' (Some H) ((d, a, sib) # c) (Some y)"
    proof (rule wfc_rehole[where h = h and q = "Some x" and n = na])
      show "wfc h (Some H) ((d, a, sib) # c) (Some x)" using wc by (simp add: Cons fr)
      show "distinct (before ((d, a, sib) # c) @ after ((d, a, sib) # c))"
        using di' by (auto simp: Cons fr)
      show "h a = Some na" by (rule na)
      show "h' a = Some (if d then na\<lparr>left := Some y\<rparr> else na\<lparr>right := Some y\<rparr>)" by (rule F4)
      show "parent (if d then na\<lparr>left := Some y\<rparr> else na\<lparr>right := Some y\<rparr>) = parent na" by simp
      show "if d then left (if d then na\<lparr>left := Some y\<rparr> else na\<lparr>right := Some y\<rparr>) = Some y
                \<and> right (if d then na\<lparr>left := Some y\<rparr> else na\<lparr>right := Some y\<rparr>) = right na
            else right (if d then na\<lparr>left := Some y\<rparr> else na\<lparr>right := Some y\<rparr>) = Some y
                \<and> left (if d then na\<lparr>left := Some y\<rparr> else na\<lparr>right := Some y\<rparr>) = left na"
        by simp
    next
      fix a' assume a': "a' \<in> set (before ((d, a, sib) # c) @ after ((d, a, sib) # c))" "a' \<noteq> a"
      have "a' \<noteq> x" "a' \<noteq> y" "a' \<noteq> H" using a'(1) di' Hn' by (auto simp: Cons fr)
      moreover have "rootp lr \<noteq> Some a'" using a'(1) di' by (cases lr) (auto simp: Cons fr)
      moreover have "\<And>d' a'' sib' c'. ca = (d', a'', sib') # c' \<Longrightarrow> a' \<noteq> a''"
        using a'(2) by (simp add: Cons fr)
      ultimately have "h' a' = h a'" by (intro F6) blast
      thus "links h' a' = links h a'" by (simp add: links_def)
    qed
    thus ?thesis by (simp add: Cons fr)
  qed
  show "\<exists>nH'. h' H = Some nH' \<and> parent nH' = rootp (plug ca (Br ll y (Br lr x r)))
           \<and> left nH' = left nH \<and> right nH' = right nH"
  proof (cases ca)
    case Nil
    have "h' H = Some (nH\<lparr>parent := Some y\<rparr>)"
      using hH(1) xy lrx by (cases lr) (auto simp: h'_def rot_right_store_def Let_def Nil)
    thus ?thesis by (simp add: Nil)
  next
    case (Cons fr c)
    obtain d a sib where fr: "fr = (d, a, sib)" by (cases fr)
    have a: "a \<noteq> H" using top[of d a sib c] by (auto simp: Cons fr)
    have "h' H = Some nH"
      using hH(1) xy lrx a by (cases lr) (auto simp: h'_def rot_right_store_def Let_def Cons fr)
    moreover have "rootp (plug ca (Br ll y (Br lr x r))) = rootp (plug ca (Br (Br ll y lr) x r))"
      by (rule rootp_plug) (simp add: Cons)
    ultimately show ?thesis using hH(2) by simp
  qed
qed

section \<open>The policies of the plain tree\<close>

lemma bumps_val: "map_option val (bumps c h a) = map_option val (h a)"
  by (induction c arbitrary: h) (auto simp: bump_def option.map_comp comp_def)

lemma bumps_links: "links (bumps c h) a = links h a"
  by (induction c arbitrary: h) (auto simp: bump_def links_def option.map_comp comp_def)

lemma bumps_key: "key (bumps c h) a = key h a"
  using bumps_val[of c h a] by (cases "h a"; cases "bumps c h a") (auto simp: key_def)

lemma vals_are_frame: "Q_frame (vals_are g)"
  unfolding Q_frame_def vals_are_def list_all_iff by metis

lemma avl_rot_left_spec: "rot_left_spec (vals_are g) rotation_left"
  unfolding rot_left_spec_def
proof (intro allI impI)
  fix h :: "('a, 'b) store" and H ca l x rl y rr nH
  assume a: "wfc h (Some H) ca (Some x) \<and> wfs h (hole_parent (Some H) ca) (Br l x (Br rl y rr))
        \<and> distinct (inorder (plug ca (Br l x (Br rl y rr))))
        \<and> H \<notin> set (inorder (plug ca (Br l x (Br rl y rr))))
        \<and> h H = Some nH \<and> parent nH = rootp (plug ca (Br l x (Br rl y rr)))"
  let ?h' = "rot_left_store H ca x y rl h"
  have run: "rotation_left (Some x) H h = Some ?h'"
    using a by (intro rotation_left_run) auto
  have ok: "wfc ?h' (Some H) ca (Some y)"
     "wfs ?h' (hole_parent (Some H) ca) (Br (Br l x rl) y rr)"
     "\<exists>nH'. ?h' H = Some nH' \<and> parent nH' = rootp (plug ca (Br (Br l x rl) y rr))
           \<and> left nH' = left nH \<and> right nH' = right nH"
    using a rot_left_store_ok[of h H ca x l rl y rr nH] by auto
  have c: "\<And>a. map_option balance (?h' a) = map_option balance (h a)
             \<and> map_option val (?h' a) = map_option val (h a)"
    by (rule rot_left_store_content)
  have bk: "\<And>a. bal ?h' a = bal h a \<and> key ?h' a = key h a"
  proof -
    fix a show "bal ?h' a = bal h a \<and> key ?h' a = key h a"
      using c[of a] by (cases "h a"; cases "?h' a") (auto simp: bal_def key_def)
  qed
  have q: "vals_are g h (plug ca (Br l x (Br rl y rr)))
      \<longrightarrow> vals_are g ?h' (plug ca (Br (Br l x rl) y rr))"
    by (auto simp: vals_are_def list_all_iff inorder_plug c)
  show "\<exists>h' nH'. rotation_left (Some x) H h = Some h'
              \<and> wfc h' (Some H) ca (Some y)
              \<and> wfs h' (hole_parent (Some H) ca) (Br (Br l x rl) y rr)
              \<and> h' H = Some nH' \<and> parent nH' = rootp (plug ca (Br (Br l x rl) y rr))
              \<and> left nH' = left nH \<and> right nH' = right nH
              \<and> (\<forall>a. a \<noteq> H \<longrightarrow> bal h' a = bal h a \<and> key h' a = key h a)
              \<and> (vals_are g h (plug ca (Br l x (Br rl y rr)))
                   \<longrightarrow> vals_are g h' (plug ca (Br (Br l x rl) y rr)))"
    using run ok bk q by blast
qed

lemma avl_rot_right_spec: "rot_right_spec (vals_are g) rotation_right"
  unfolding rot_right_spec_def
proof (intro allI impI)
  fix h :: "('a, 'b) store" and H ca ll y lr x r nH
  assume a: "wfc h (Some H) ca (Some x) \<and> wfs h (hole_parent (Some H) ca) (Br (Br ll y lr) x r)
        \<and> distinct (inorder (plug ca (Br (Br ll y lr) x r)))
        \<and> H \<notin> set (inorder (plug ca (Br (Br ll y lr) x r)))
        \<and> h H = Some nH \<and> parent nH = rootp (plug ca (Br (Br ll y lr) x r))"
  let ?h' = "rot_right_store H ca x y lr h"
  have run: "rotation_right (Some x) H h = Some ?h'"
    using a by (intro rotation_right_run) auto
  have ok: "wfc ?h' (Some H) ca (Some y)"
     "wfs ?h' (hole_parent (Some H) ca) (Br ll y (Br lr x r))"
     "\<exists>nH'. ?h' H = Some nH' \<and> parent nH' = rootp (plug ca (Br ll y (Br lr x r)))
           \<and> left nH' = left nH \<and> right nH' = right nH"
    using a rot_right_store_ok[of h H ca x ll y lr r nH] by auto
  have c: "\<And>a. map_option balance (?h' a) = map_option balance (h a)
             \<and> map_option val (?h' a) = map_option val (h a)"
    by (rule rot_right_store_content)
  have bk: "\<And>a. bal ?h' a = bal h a \<and> key ?h' a = key h a"
  proof -
    fix a show "bal ?h' a = bal h a \<and> key ?h' a = key h a"
      using c[of a] by (cases "h a"; cases "?h' a") (auto simp: bal_def key_def)
  qed
  have q: "vals_are g h (plug ca (Br (Br ll y lr) x r))
      \<longrightarrow> vals_are g ?h' (plug ca (Br ll y (Br lr x r)))"
    by (auto simp: vals_are_def list_all_iff inorder_plug c)
  show "\<exists>h' nH'. rotation_right (Some x) H h = Some h'
              \<and> wfc h' (Some H) ca (Some y)
              \<and> wfs h' (hole_parent (Some H) ca) (Br ll y (Br lr x r))
              \<and> h' H = Some nH' \<and> parent nH' = rootp (plug ca (Br ll y (Br lr x r)))
              \<and> left nH' = left nH \<and> right nH' = right nH
              \<and> (\<forall>a. a \<noteq> H \<longrightarrow> bal h' a = bal h a \<and> key h' a = key h a)
              \<and> (vals_are g h (plug ca (Br (Br ll y lr) x r))
                   \<longrightarrow> vals_are g h' (plug ca (Br ll y (Br lr x r))))"
    using run ok bk q by blast
qed

lemma avl_update_spec: "update_spec (vals_are g) (\<lambda>x v. v = g x) avl_update"
  unfolding update_spec_def
proof (intro allI impI)
  fix h :: "('a, 'b) store" and H Z x nx nH
  assume a: "wfc h (Some H) Z (Some x)
        \<and> h x = Some nx \<and> parent nx = hole_parent (Some H) Z
        \<and> left nx = None \<and> right nx = None \<and> balance nx = 0
        \<and> h H = Some nH \<and> parent nH = rootp (plug Z (Br Tip x Tip))
        \<and> distinct (before Z @ x # after Z) \<and> H \<notin> set (before Z @ x # after Z)"
  from avl_update_ok[of h H Z x nx nH] a obtain h' nH' where
    r: "avl_update (Some x) (cand (bal h) (Some H) Z) H h = Some h'"
       "\<forall>a. a \<noteq> H \<longrightarrow> h' a = bumps (cut (bal h) Z) h a"
       "h' H = Some nH'" "parent nH' = parent nH" "left nH' = left nH"
       "right nH' = right nH" "val nH' = val nH"
    by blast
  have e: "\<And>a. a \<noteq> H \<Longrightarrow> links h' a = links h a \<and> key h' a = key h a
                     \<and> bal h' a = bal (bumps (cut (bal h) Z) h) a"
    using r(2) by (simp add: links_def key_def bal_def bumps_links[unfolded links_def]
        bumps_key[unfolded key_def])
  have v: "\<And>a. a \<noteq> H \<Longrightarrow> map_option val (h' a) = map_option val (h a)"
    using r(2) by (simp add: bumps_val)
  have q: "vals_are g h (plug Z Tip) \<and> val nx = g x \<longrightarrow> vals_are g h' (plug Z (Br Tip x Tip))"
    unfolding vals_are_def list_all_iff inorder_plug
  proof (intro impI ballI)
    fix a'
    assume q0: "(\<forall>a\<in>set (before Z @ inorder Tip @ after Z). map_option val (h a) = Some (g a))
        \<and> val nx = g x"
      and ain: "a' \<in> set (before Z @ inorder (Br Tip x Tip) @ after Z)"
    have aH: "a' \<noteq> H" using a ain by auto
    have "map_option val (h a') = Some (g a')"
    proof (cases "a' = x")
      case True
      thus ?thesis using a q0 by simp
    next
      case False
      hence "a' \<in> set (before Z @ inorder Tip @ after Z)" using ain by simp
      thus ?thesis using q0 by blast
    qed
    thus "map_option val (h' a') = Some (g a')" using v[OF aH] by (simp only:)
  qed
  show "\<exists>h' nH'. avl_update (Some x) (cand (bal h) (Some H) Z) H h = Some h'
              \<and> (\<forall>a. a \<noteq> H \<longrightarrow> links h' a = links h a \<and> key h' a = key h a
                     \<and> bal h' a = bal (bumps (cut (bal h) Z) h) a)
              \<and> h' H = Some nH' \<and> parent nH' = parent nH
              \<and> left nH' = left nH \<and> right nH' = right nH
              \<and> (vals_are g h (plug Z Tip) \<and> val nx = g x
                   \<longrightarrow> vals_are g h' (plug Z (Br Tip x Tip)))"
    using r e q by blast
qed

lemma avl_policy_ok: "policy_ok (vals_are g) (\<lambda>x v. v = g x) avl_policy"
  by (simp add: policy_ok_def avl_policy_def vals_are_frame avl_update_spec
      avl_rot_left_spec avl_rot_right_spec)

section \<open>Balance arithmetic\<close>

lemma avl_cong: "(\<And>a. a \<in> set (inorder s) \<Longrightarrow> b' a = b a) \<Longrightarrow> avl b' s = avl b s"
proof (induction s)
  case Tip
  show ?case by simp
next
  case (Br l a r)
  have "b' a = b a" using Br.prems by simp
  moreover have "avl b' l = avl b l" using Br.prems by (intro Br.IH) simp
  moreover have "avl b' r = avl b r" using Br.prems by (intro Br.IH) simp
  ultimately show ?case by simp
qed

lemma avlc_cong:
  "(\<And>a. a \<in> set (before c @ after c) \<Longrightarrow> b' a = b a) \<Longrightarrow> avlc b' c n = avlc b c n"
proof (induction c arbitrary: n)
  case Nil
  show ?case by simp
next
  case (Cons fr c)
  obtain d a sib where fr: "fr = (d, a, sib)" by (cases fr)
  have "b' a = b a" using Cons.prems by (cases d) (auto simp: fr)
  moreover have "avl b' sib = avl b sib"
    using Cons.prems by (intro avl_cong) (cases d; auto simp: fr)
  moreover have "\<And>m. avlc b' c m = avlc b c m"
    using Cons.prems by (intro Cons.IH) (cases d; auto simp: fr)
  ultimately show ?case by (simp add: fr)
qed

lemma single_left_avl:
  assumes "avl b l" "avl b rl" "avl b rr"
    and "b u = int (height (Br rl y rr)) - int (height l)" "b u = 2"
    and "b y = int (height rr) - int (height rl)" "b y = 1"
    and "b' u = 0" "b' y = 0"
    and "\<And>a. a \<in> set (inorder l @ inorder rl @ inorder rr) \<Longrightarrow> b' a = b a"
  shows "avl b' (Br (Br l u rl) y rr)"
    and "int (height (Br (Br l u rl) y rr)) = int (height (Br l u (Br rl y rr))) - 1"
proof -
  have "avl b' l" "avl b' rl" "avl b' rr"
    using assms(1-3,10) by (auto simp: avl_cong[of _ b' b])
  thus "avl b' (Br (Br l u rl) y rr)" using assms(4-9) by (auto simp: max_def)
  show "int (height (Br (Br l u rl) y rr)) = int (height (Br l u (Br rl y rr))) - 1"
    using assms(4-7) by (auto simp: max_def)
qed

lemma single_right_avl:
  assumes "avl b r" "avl b lr" "avl b ll"
    and "b u = int (height r) - int (height (Br ll y lr))" "b u = - 2"
    and "b y = int (height lr) - int (height ll)" "b y = - 1"
    and "b' u = 0" "b' y = 0"
    and "\<And>a. a \<in> set (inorder r @ inorder lr @ inorder ll) \<Longrightarrow> b' a = b a"
  shows "avl b' (Br ll y (Br lr u r))"
    and "int (height (Br ll y (Br lr u r))) = int (height (Br (Br ll y lr) u r)) - 1"
proof -
  have "avl b' r" "avl b' lr" "avl b' ll"
    using assms(1-3,10) by (auto simp: avl_cong[of _ b' b])
  thus "avl b' (Br ll y (Br lr u r))" using assms(4-9) by (auto simp: max_def)
  show "int (height (Br ll y (Br lr u r))) = int (height (Br (Br ll y lr) u r)) - 1"
    using assms(4-7) by (auto simp: max_def)
qed

lemma double_left_avl:
  assumes "avl b l" "avl b m1" "avl b m2" "avl b rr"
    and "b u = int (height (Br (Br m1 z m2) y rr)) - int (height l)" "b u = 2"
    and "b y = int (height rr) - int (height (Br m1 z m2))" "b y = - 1"
    and "b z = int (height m2) - int (height m1)" "- 1 \<le> b z" "b z \<le> 1"
    and "b' u = (if b z = 1 then - 1 else 0)" "b' y = (if b z = - 1 then 1 else 0)" "b' z = 0"
    and "\<And>a. a \<in> set (inorder l @ inorder m1 @ inorder m2 @ inorder rr) \<Longrightarrow> b' a = b a"
  shows "avl b' (Br (Br l u m1) z (Br m2 y rr))"
    and "int (height (Br (Br l u m1) z (Br m2 y rr)))
         = int (height (Br l u (Br (Br m1 z m2) y rr))) - 1"
proof -
  have "avl b' l" "avl b' m1" "avl b' m2" "avl b' rr"
    using assms(1-4,15) by (auto simp: avl_cong[of _ b' b])
  thus "avl b' (Br (Br l u m1) z (Br m2 y rr))"
    using assms(5-14) by (auto simp: max_def split: if_splits)
  show "int (height (Br (Br l u m1) z (Br m2 y rr)))
         = int (height (Br l u (Br (Br m1 z m2) y rr))) - 1"
    using assms(5-11) by (auto simp: max_def split: if_splits)
qed

lemma double_right_avl:
  assumes "avl b r" "avl b m1" "avl b m2" "avl b ll"
    and "b u = int (height r) - int (height (Br ll y (Br m1 z m2)))" "b u = - 2"
    and "b y = int (height (Br m1 z m2)) - int (height ll)" "b y = 1"
    and "b z = int (height m2) - int (height m1)" "- 1 \<le> b z" "b z \<le> 1"
    and "b' u = (if b z = - 1 then 1 else 0)" "b' y = (if b z = 1 then - 1 else 0)" "b' z = 0"
    and "\<And>a. a \<in> set (inorder r @ inorder m1 @ inorder m2 @ inorder ll) \<Longrightarrow> b' a = b a"
  shows "avl b' (Br (Br ll y m1) z (Br m2 u r))"
    and "int (height (Br (Br ll y m1) z (Br m2 u r)))
         = int (height (Br (Br ll y (Br m1 z m2)) u r)) - 1"
proof -
  have "avl b' r" "avl b' m1" "avl b' m2" "avl b' ll"
    using assms(1-4,15) by (auto simp: avl_cong[of _ b' b])
  thus "avl b' (Br (Br ll y m1) z (Br m2 u r))"
    using assms(5-14) by (auto simp: max_def split: if_splits)
  show "int (height (Br (Br ll y m1) z (Br m2 u r)))
         = int (height (Br (Br ll y (Br m1 z m2)) u r)) - 1"
    using assms(5-11) by (auto simp: max_def split: if_splits)
qed

section \<open>Rebalancing\<close>

lemma links_set_balance:
  "links (h(a := map_option (\<lambda>n. n\<lparr>balance := v\<rparr>) (h a))) a' = links h a'"
  by (cases "h a") (auto simp: links_def)

lemma rebal_postI:
  "wfc h' (Some H) ca (rootp S') \<Longrightarrow> wfs h' (hole_parent (Some H) ca) S'
   \<Longrightarrow> inorder S' = inorder S \<Longrightarrow> avl (bal h') S'
   \<Longrightarrow> int (height S') = int (height S) - dh
   \<Longrightarrow> h' H = Some nH' \<Longrightarrow> parent nH' = rootp (plug ca S')
   \<Longrightarrow> left nH' = left nH \<Longrightarrow> right nH' = right nH
   \<Longrightarrow> \<forall>a. a \<noteq> H \<longrightarrow> key h' a = key h a
   \<Longrightarrow> \<forall>a. a \<noteq> H \<longrightarrow> a \<notin> set (inorder S) \<longrightarrow> bal h' a = bal h a
   \<Longrightarrow> Q h' (plug ca S')
   \<Longrightarrow> rebal_post Q h H ca S nH dh h'"
  unfolding rebal_post_def by blast

lemma rebalance_single_left:
  fixes h :: "('k, 'v) store"
  assumes rs: "rot_left_spec Q (rotate_left pol)" and qf: "Q_frame Q"
    and wc: "wfc h (Some H) ca (Some u)"
    and ws: "wfs h (hole_parent (Some H) ca) (Br l u (Br rl y rr))"
    and di: "distinct (inorder (plug ca (Br l u (Br rl y rr))))"
    and Hn: "H \<notin> set (inorder (plug ca (Br l u (Br rl y rr))))"
    and hH: "h H = Some nH" "parent nH = rootp (plug ca (Br l u (Br rl y rr)))"
    and bu: "bal h u = int (height (Br rl y rr)) - int (height l)" "bal h u = 2"
    and byy: "bal h y = int (height rr) - int (height rl)" "bal h y = 1"
    and av: "avl (bal h) l" "avl (bal h) rl" "avl (bal h) rr"
    and q: "Q h (plug ca (Br l u (Br rl y rr)))"
  shows "\<exists>h'. rebalance pol (Some u) H h = Some h'
           \<and> rebal_post Q h H ca (Br l u (Br rl y rr)) nH 1 h'"
proof -
  let ?S = "Br l u (Br rl y rr)"
  from ws obtain nu ny where nu: "h u = Some nu" "right nu = Some y"
    and ny: "h y = Some ny"
    by (auto split: option.splits)
  have io: "inorder (plug ca ?S) = before ca @ (inorder l @ u # inorder rl @ y # inorder rr) @ after ca"
    by (simp add: inorder_plug)
  have di': "distinct (before ca @ inorder l @ u # inorder rl @ y # inorder rr @ after ca)"
    using di by (simp add: io)
  have Hn': "H \<notin> set (before ca @ inorder l @ u # inorder rl @ y # inorder rr @ after ca)"
    using Hn by (simp add: io)
  have ne: "u \<noteq> y" "u \<noteq> H" "y \<noteq> H" using di' Hn' by auto
  have bnu: "balance nu = 2" "balance ny = 1" using bu(2) byy(2) nu ny by (auto simp: bal_def)
  let ?h2 = "h(u \<mapsto> nu\<lparr>balance := 0\<rparr>, y \<mapsto> ny\<lparr>balance := 0\<rparr>)"
  have run: "rebalance pol (Some u) H h = rotate_left pol (Some u) H ?h2"
    using nu ny ne bnu by (simp add: rebalance_def get_def deref_def modify_def)
  have lk: "\<And>a. links ?h2 a = links h a" using nu ny by (auto simp: links_def)
  have vl: "\<And>a. map_option val (?h2 a) = map_option val (h a)" using nu ny by auto
  have ky: "\<And>a. key ?h2 a = key h a" using nu ny by (auto simp: key_def)
  have wc2: "wfc ?h2 (Some H) ca (Some u)" using wc wfc_cong[of ca ?h2 h, OF lk] by simp
  have ws2: "wfs ?h2 (hole_parent (Some H) ca) ?S" using ws wfs_cong[of ?S ?h2 h, OF lk] by simp
  have hH2: "?h2 H = Some nH" using hH(1) ne by simp
  have q2: "Q ?h2 (plug ca ?S)" using qf q vl unfolding Q_frame_def by blast
  from rs[unfolded rot_left_spec_def, rule_format, of ?h2 H ca u l rl y rr nH]
    wc2 ws2 di Hn hH2 hH(2) q2
  obtain h' nH' where r: "rotate_left pol (Some u) H ?h2 = Some h'"
      "wfc h' (Some H) ca (Some y)" "wfs h' (hole_parent (Some H) ca) (Br (Br l u rl) y rr)"
      "h' H = Some nH'" "parent nH' = rootp (plug ca (Br (Br l u rl) y rr))"
      "left nH' = left nH" "right nH' = right nH"
      "\<forall>a. a \<noteq> H \<longrightarrow> bal h' a = bal ?h2 a \<and> key h' a = key ?h2 a"
      "Q h' (plug ca (Br (Br l u rl) y rr))"
    by blast
  have b2: "\<And>a. a \<noteq> H \<Longrightarrow> bal h' a = (if a = u \<or> a = y then 0 else bal h a)"
    using r(8) ne by (auto simp: bal_def)
  have a1: "avl (bal h') (Br (Br l u rl) y rr)"
    and a2: "int (height (Br (Br l u rl) y rr)) = int (height ?S) - 1"
  proof -
    have c: "\<And>a. a \<in> set (inorder l @ inorder rl @ inorder rr) \<Longrightarrow> bal h' a = bal h a"
    proof -
      fix a assume ain: "a \<in> set (inorder l @ inorder rl @ inorder rr)"
      have "a \<noteq> u" "a \<noteq> y" "a \<noteq> H" using ain di' Hn' by auto
      thus "bal h' a = bal h a" using b2[of a] by simp
    qed
    show "avl (bal h') (Br (Br l u rl) y rr)"
      using single_left_avl(1)[OF av bu byy _ _ c] b2[of u] b2[of y] ne by simp
    show "int (height (Br (Br l u rl) y rr)) = int (height ?S) - 1"
      using single_left_avl(2)[OF av bu byy _ _ c] b2[of u] b2[of y] ne by simp
  qed
  have k: "\<forall>a. a \<noteq> H \<longrightarrow> key h' a = key h a" using r(8) ky by simp
  have bo: "\<forall>a. a \<noteq> H \<longrightarrow> a \<notin> set (inorder ?S) \<longrightarrow> bal h' a = bal h a" using b2 by simp
  have "rebal_post Q h H ca ?S nH 1 h'"
  proof (rule rebal_postI[where S' = "Br (Br l u rl) y rr" and nH' = nH'])
    show "wfc h' (Some H) ca (rootp (Br (Br l u rl) y rr))" using r(2) by simp
    show "inorder (Br (Br l u rl) y rr) = inorder ?S" by simp
  qed (fact r(3) a1 a2 r(4) r(5) r(6) r(7) k bo r(9))+
  thus ?thesis using run r(1) by simp
qed

lemma frame_down_right:
  "wfc h tp ca (Some u) \<Longrightarrow> wfs h (hole_parent tp ca) (Br l u s)
   \<Longrightarrow> wfc h tp ((False, u, l) # ca) (rootp s) \<and> wfs h (Some u) s"
  by (cases "h u") auto

lemma frame_up_right:
  "wfc h tp ((False, u, l) # ca) (rootp s) \<Longrightarrow> wfs h (Some u) s
   \<Longrightarrow> wfc h tp ca (Some u) \<and> wfs h (hole_parent tp ca) (Br l u s)"
  by (cases "h u") auto

lemma frame_down_left:
  "wfc h tp ca (Some u) \<Longrightarrow> wfs h (hole_parent tp ca) (Br s u r)
   \<Longrightarrow> wfc h tp ((True, u, r) # ca) (rootp s) \<and> wfs h (Some u) s"
  by (cases "h u") auto

lemma frame_up_left:
  "wfc h tp ((True, u, r) # ca) (rootp s) \<Longrightarrow> wfs h (Some u) s
   \<Longrightarrow> wfc h tp ca (Some u) \<and> wfs h (hole_parent tp ca) (Br s u r)"
  by (cases "h u") auto

lemma rebalance_double_left:
  fixes h :: "('k, 'v) store"
  assumes rl: "rot_left_spec Q (rotate_left pol)" and rr: "rot_right_spec Q (rotate_right pol)"
    and qf: "Q_frame Q"
    and wc: "wfc h (Some H) ca (Some u)"
    and ws: "wfs h (hole_parent (Some H) ca) (Br l u (Br (Br m1 z m2) y r2))"
    and di: "distinct (inorder (plug ca (Br l u (Br (Br m1 z m2) y r2))))"
    and Hn: "H \<notin> set (inorder (plug ca (Br l u (Br (Br m1 z m2) y r2))))"
    and hH: "h H = Some nH" "parent nH = rootp (plug ca (Br l u (Br (Br m1 z m2) y r2)))"
    and bu: "bal h u = int (height (Br (Br m1 z m2) y r2)) - int (height l)" "bal h u = 2"
    and byy: "bal h y = int (height r2) - int (height (Br m1 z m2))" "bal h y = - 1"
    and bz: "bal h z = int (height m2) - int (height m1)" "- 1 \<le> bal h z" "bal h z \<le> 1"
    and av: "avl (bal h) l" "avl (bal h) m1" "avl (bal h) m2" "avl (bal h) r2"
    and q: "Q h (plug ca (Br l u (Br (Br m1 z m2) y r2)))"
  shows "\<exists>h'. rebalance pol (Some u) H h = Some h'
           \<and> rebal_post Q h H ca (Br l u (Br (Br m1 z m2) y r2)) nH 1 h'"
proof -
  let ?S = "Br l u (Br (Br m1 z m2) y r2)"
  let ?S1 = "Br l u (Br m1 z (Br m2 y r2))"
  let ?S2 = "Br (Br l u m1) z (Br m2 y r2)"
  let ?ca' = "(False, u, l) # ca"
  from ws obtain nu ny nz where nu: "h u = Some nu" "right nu = Some y"
    and ny: "h y = Some ny" "left ny = Some z" and nz: "h z = Some nz"
    by (auto split: option.splits)
  have io: "inorder (plug ca ?S)
     = before ca @ (inorder l @ u # inorder m1 @ z # inorder m2 @ y # inorder r2) @ after ca"
    by (simp add: inorder_plug)
  have di': "distinct (before ca @ inorder l @ u # inorder m1 @ z # inorder m2 @ y # inorder r2
               @ after ca)"
    using di by (simp add: io)
  have Hn': "H \<notin> set (before ca @ inorder l @ u # inorder m1 @ z # inorder m2 @ y # inorder r2
               @ after ca)"
    using Hn by (simp add: io)
  have ne: "u \<noteq> y" "u \<noteq> z" "y \<noteq> z" "u \<noteq> H" "y \<noteq> H" "z \<noteq> H" using di' Hn' by auto
  have bn: "balance nu = 2" "balance ny = - 1" "balance nz = bal h z"
    using bu(2) byy(2) nu ny nz by (auto simp: bal_def)
  let ?bu = "if bal h z = 1 then - 1 else (0::int)"
  let ?by = "if bal h z = - 1 then 1 else (0::int)"
  let ?h3 = "h(u \<mapsto> nu\<lparr>balance := ?bu\<rparr>, y \<mapsto> ny\<lparr>balance := ?by\<rparr>, z \<mapsto> nz\<lparr>balance := 0\<rparr>)"
  have cz: "bal h z = 1 \<or> bal h z = 0 \<or> bal h z = - 1" using bz(2,3) by arith
  have run: "rebalance pol (Some u) H h
       = rotate_right pol (Some y) H ?h3 \<bind> rotate_left pol (Some u) H"
    using cz
  proof (elim disjE)
    assume "bal h z = 1"
    thus ?thesis using nu ny nz ne bn
      by (simp add: rebalance_def get_def deref_def modify_def)
  next
    assume "bal h z = 0"
    thus ?thesis using nu ny nz ne bn
      by (simp add: rebalance_def get_def deref_def modify_def)
  next
    assume "bal h z = - 1"
    thus ?thesis using nu ny nz ne bn
      by (simp add: rebalance_def get_def deref_def modify_def)
  qed
  have lk: "\<And>a. links ?h3 a = links h a" using nu ny nz by (auto simp: links_def)
  have vl: "\<And>a. map_option val (?h3 a) = map_option val (h a)" using nu ny nz by auto
  have ky: "\<And>a. key ?h3 a = key h a" using nu ny nz by (auto simp: key_def)
  have b3: "\<And>a. bal ?h3 a = (if a = z then 0 else if a = y then ?by else if a = u then ?bu
                               else bal h a)"
    using ne by (auto simp: bal_def)
  have wc3: "wfc ?h3 (Some H) ca (Some u)" using wc wfc_cong[of ca ?h3 h, OF lk] by simp
  have ws3: "wfs ?h3 (hole_parent (Some H) ca) ?S" using ws wfs_cong[of ?S ?h3 h, OF lk] by simp
  have hH3: "?h3 H = Some nH" using hH(1) ne by simp
  have q3: "Q ?h3 (plug ca ?S)" using qf q vl unfolding Q_frame_def by blast
  have p1: "plug ?ca' (Br (Br m1 z m2) y r2) = plug ca ?S" by simp
  have w3: "wfc ?h3 (Some H) ?ca' (Some y) \<and> wfs ?h3 (Some u) (Br (Br m1 z m2) y r2)"
    using frame_down_right[OF wc3 ws3] by simp
  from rr[unfolded rot_right_spec_def, rule_format, of ?h3 H ?ca' y m1 z m2 r2 nH]
    w3 di Hn hH3 hH(2) q3
  obtain h4 nH4 where r4: "rotate_right pol (Some y) H ?h3 = Some h4"
      "wfc h4 (Some H) ?ca' (Some z)" "wfs h4 (hole_parent (Some H) ?ca') (Br m1 z (Br m2 y r2))"
      "h4 H = Some nH4" "parent nH4 = rootp (plug ?ca' (Br m1 z (Br m2 y r2)))"
      "left nH4 = left nH" "right nH4 = right nH"
      "\<forall>a. a \<noteq> H \<longrightarrow> bal h4 a = bal ?h3 a \<and> key h4 a = key ?h3 a"
      "Q h4 (plug ?ca' (Br m1 z (Br m2 y r2)))"
    by (simp only: p1 hole_parent.simps) blast
  have p2: "plug ?ca' (Br m1 z (Br m2 y r2)) = plug ca ?S1" by simp
  have io1: "inorder (plug ca ?S1) = inorder (plug ca ?S)" by (simp add: inorder_plug)
  have r42: "wfc h4 (Some H) ?ca' (rootp (Br m1 z (Br m2 y r2)))" using r4(2) by simp
  have r43: "wfs h4 (Some u) (Br m1 z (Br m2 y r2))" using r4(3) by simp
  have w4: "wfc h4 (Some H) ca (Some u) \<and> wfs h4 (hole_parent (Some H) ca) ?S1"
    by (rule frame_up_right[OF r42 r43])
  from rl[unfolded rot_left_spec_def, rule_format, of h4 H ca u l m1 z "Br m2 y r2" nH4]
    w4 di Hn r4(4,5,9)
  obtain h5 nH5 where r5: "rotate_left pol (Some u) H h4 = Some h5"
      "wfc h5 (Some H) ca (Some z)" "wfs h5 (hole_parent (Some H) ca) ?S2"
      "h5 H = Some nH5" "parent nH5 = rootp (plug ca ?S2)"
      "left nH5 = left nH4" "right nH5 = right nH4"
      "\<forall>a. a \<noteq> H \<longrightarrow> bal h5 a = bal h4 a \<and> key h5 a = key h4 a"
      "Q h5 (plug ca ?S2)"
    by (simp only: p2 io1) blast
  have b5: "\<And>a. a \<noteq> H \<Longrightarrow> bal h5 a = bal ?h3 a" using r5(8) r4(8) by simp
  have c: "\<And>a. a \<in> set (inorder l @ inorder m1 @ inorder m2 @ inorder r2) \<Longrightarrow> bal h5 a = bal h a"
  proof -
    fix a assume ain: "a \<in> set (inorder l @ inorder m1 @ inorder m2 @ inorder r2)"
    have "a \<noteq> u" "a \<noteq> y" "a \<noteq> z" "a \<noteq> H" using ain di' Hn' by auto
    thus "bal h5 a = bal h a" using b5[of a] b3[of a] by simp
  qed
  have bu5: "bal h5 u = ?bu" using b5[of u] b3[of u] ne by simp
  have by5: "bal h5 y = ?by" using b5[of y] b3[of y] ne by simp
  have bz5: "bal h5 z = 0" using b5[of z] b3[of z] ne by simp
  have a1: "avl (bal h5) ?S2"
    by (rule double_left_avl(1)[OF av bu byy bz bu5 by5 bz5 c])
  have a2: "int (height ?S2) = int (height ?S) - 1"
    by (rule double_left_avl(2)[OF av bu byy bz bu5 by5 bz5 c])
  have k: "\<forall>a. a \<noteq> H \<longrightarrow> key h5 a = key h a" using r5(8) r4(8) ky by simp
  have bo: "\<forall>a. a \<noteq> H \<longrightarrow> a \<notin> set (inorder ?S) \<longrightarrow> bal h5 a = bal h a"
    using b5 b3 by auto
  have "rebal_post Q h H ca ?S nH 1 h5"
  proof (rule rebal_postI[where S' = ?S2 and nH' = nH5])
    show "wfc h5 (Some H) ca (rootp ?S2)" using r5(2) by simp
    show "inorder ?S2 = inorder ?S" by simp
    show "left nH5 = left nH" using r5(6) r4(6) by simp
    show "right nH5 = right nH" using r5(7) r4(7) by simp
  qed (fact r5(3) a1 a2 r5(4) r5(5) k bo r5(9))+
  thus ?thesis using run r4(1) r5(1) by simp
qed

lemma rebalance_single_right:
  fixes h :: "('k, 'v) store"
  assumes rs: "rot_right_spec Q (rotate_right pol)" and qf: "Q_frame Q"
    and wc: "wfc h (Some H) ca (Some u)"
    and ws: "wfs h (hole_parent (Some H) ca) (Br (Br ll y lr) u r)"
    and di: "distinct (inorder (plug ca (Br (Br ll y lr) u r)))"
    and Hn: "H \<notin> set (inorder (plug ca (Br (Br ll y lr) u r)))"
    and hH: "h H = Some nH" "parent nH = rootp (plug ca (Br (Br ll y lr) u r))"
    and bu: "bal h u = int (height r) - int (height (Br ll y lr))" "bal h u = - 2"
    and byy: "bal h y = int (height lr) - int (height ll)" "bal h y = - 1"
    and av: "avl (bal h) r" "avl (bal h) lr" "avl (bal h) ll"
    and q: "Q h (plug ca (Br (Br ll y lr) u r))"
  shows "\<exists>h'. rebalance pol (Some u) H h = Some h'
           \<and> rebal_post Q h H ca (Br (Br ll y lr) u r) nH 1 h'"
proof -
  let ?S = "Br (Br ll y lr) u r"
  let ?S2 = "Br ll y (Br lr u r)"
  from ws obtain nu ny where nu: "h u = Some nu" "left nu = Some y"
    and ny: "h y = Some ny"
    by (auto split: option.splits)
  have io: "inorder (plug ca ?S) = before ca @ (inorder ll @ y # inorder lr @ u # inorder r) @ after ca"
    by (simp add: inorder_plug)
  have di': "distinct (before ca @ inorder ll @ y # inorder lr @ u # inorder r @ after ca)"
    using di by (simp add: io)
  have Hn': "H \<notin> set (before ca @ inorder ll @ y # inorder lr @ u # inorder r @ after ca)"
    using Hn by (simp add: io)
  have ne: "u \<noteq> y" "u \<noteq> H" "y \<noteq> H" using di' Hn' by auto
  have bnu: "balance nu = - 2" "balance ny = - 1" using bu(2) byy(2) nu ny by (auto simp: bal_def)
  let ?h2 = "h(u \<mapsto> nu\<lparr>balance := 0\<rparr>, y \<mapsto> ny\<lparr>balance := 0\<rparr>)"
  have run: "rebalance pol (Some u) H h = rotate_right pol (Some u) H ?h2"
    using nu ny ne bnu by (simp add: rebalance_def get_def deref_def modify_def)
  have lk: "\<And>a. links ?h2 a = links h a" using nu ny by (auto simp: links_def)
  have vl: "\<And>a. map_option val (?h2 a) = map_option val (h a)" using nu ny by auto
  have ky: "\<And>a. key ?h2 a = key h a" using nu ny by (auto simp: key_def)
  have wc2: "wfc ?h2 (Some H) ca (Some u)" using wc wfc_cong[of ca ?h2 h, OF lk] by simp
  have ws2: "wfs ?h2 (hole_parent (Some H) ca) ?S" using ws wfs_cong[of ?S ?h2 h, OF lk] by simp
  have hH2: "?h2 H = Some nH" using hH(1) ne by simp
  have q2: "Q ?h2 (plug ca ?S)" using qf q vl unfolding Q_frame_def by blast
  from rs[unfolded rot_right_spec_def, rule_format, of ?h2 H ca u ll y lr r nH]
    wc2 ws2 di Hn hH2 hH(2) q2
  obtain h' nH' where r: "rotate_right pol (Some u) H ?h2 = Some h'"
      "wfc h' (Some H) ca (Some y)" "wfs h' (hole_parent (Some H) ca) ?S2"
      "h' H = Some nH'" "parent nH' = rootp (plug ca ?S2)"
      "left nH' = left nH" "right nH' = right nH"
      "\<forall>a. a \<noteq> H \<longrightarrow> bal h' a = bal ?h2 a \<and> key h' a = key ?h2 a"
      "Q h' (plug ca ?S2)"
    by blast
  have b2: "\<And>a. a \<noteq> H \<Longrightarrow> bal h' a = (if a = u \<or> a = y then 0 else bal h a)"
    using r(8) ne by (auto simp: bal_def)
  have c: "\<And>a. a \<in> set (inorder r @ inorder lr @ inorder ll) \<Longrightarrow> bal h' a = bal h a"
  proof -
    fix a assume ain: "a \<in> set (inorder r @ inorder lr @ inorder ll)"
    have "a \<noteq> u" "a \<noteq> y" "a \<noteq> H" using ain di' Hn' by auto
    thus "bal h' a = bal h a" using b2[of a] by simp
  qed
  have bu': "bal h' u = 0" using b2[of u] ne by simp
  have by': "bal h' y = 0" using b2[of y] ne by simp
  have a1: "avl (bal h') ?S2" by (rule single_right_avl(1)[OF av bu byy bu' by' c])
  have a2: "int (height ?S2) = int (height ?S) - 1"
    by (rule single_right_avl(2)[OF av bu byy bu' by' c])
  have k: "\<forall>a. a \<noteq> H \<longrightarrow> key h' a = key h a" using r(8) ky by simp
  have bo: "\<forall>a. a \<noteq> H \<longrightarrow> a \<notin> set (inorder ?S) \<longrightarrow> bal h' a = bal h a" using b2 by simp
  have "rebal_post Q h H ca ?S nH 1 h'"
  proof (rule rebal_postI[where S' = ?S2 and nH' = nH'])
    show "wfc h' (Some H) ca (rootp ?S2)" using r(2) by simp
    show "inorder ?S2 = inorder ?S" by simp
  qed (fact r(3) a1 a2 r(4) r(5) r(6) r(7) k bo r(9))+
  thus ?thesis using run r(1) by simp
qed

lemma rebalance_double_right:
  fixes h :: "('k, 'v) store"
  assumes rl: "rot_left_spec Q (rotate_left pol)" and rr: "rot_right_spec Q (rotate_right pol)"
    and qf: "Q_frame Q"
    and wc: "wfc h (Some H) ca (Some u)"
    and ws: "wfs h (hole_parent (Some H) ca) (Br (Br l2 y (Br m1 z m2)) u r)"
    and di: "distinct (inorder (plug ca (Br (Br l2 y (Br m1 z m2)) u r)))"
    and Hn: "H \<notin> set (inorder (plug ca (Br (Br l2 y (Br m1 z m2)) u r)))"
    and hH: "h H = Some nH" "parent nH = rootp (plug ca (Br (Br l2 y (Br m1 z m2)) u r))"
    and bu: "bal h u = int (height r) - int (height (Br l2 y (Br m1 z m2)))" "bal h u = - 2"
    and byy: "bal h y = int (height (Br m1 z m2)) - int (height l2)" "bal h y = 1"
    and bz: "bal h z = int (height m2) - int (height m1)" "- 1 \<le> bal h z" "bal h z \<le> 1"
    and av: "avl (bal h) r" "avl (bal h) m1" "avl (bal h) m2" "avl (bal h) l2"
    and q: "Q h (plug ca (Br (Br l2 y (Br m1 z m2)) u r))"
  shows "\<exists>h'. rebalance pol (Some u) H h = Some h'
           \<and> rebal_post Q h H ca (Br (Br l2 y (Br m1 z m2)) u r) nH 1 h'"
proof -
  let ?S = "Br (Br l2 y (Br m1 z m2)) u r"
  let ?S1 = "Br (Br (Br l2 y m1) z m2) u r"
  let ?S2 = "Br (Br l2 y m1) z (Br m2 u r)"
  let ?ca' = "(True, u, r) # ca"
  from ws obtain nu ny nz where nu: "h u = Some nu" "left nu = Some y"
    and ny: "h y = Some ny" "right ny = Some z" and nz: "h z = Some nz"
    by (auto split: option.splits)
  have io: "inorder (plug ca ?S)
     = before ca @ (inorder l2 @ y # inorder m1 @ z # inorder m2 @ u # inorder r) @ after ca"
    by (simp add: inorder_plug)
  have di': "distinct (before ca @ inorder l2 @ y # inorder m1 @ z # inorder m2 @ u # inorder r
               @ after ca)"
    using di by (simp add: io)
  have Hn': "H \<notin> set (before ca @ inorder l2 @ y # inorder m1 @ z # inorder m2 @ u # inorder r
               @ after ca)"
    using Hn by (simp add: io)
  have ne: "u \<noteq> y" "u \<noteq> z" "y \<noteq> z" "u \<noteq> H" "y \<noteq> H" "z \<noteq> H" using di' Hn' by auto
  have bn: "balance nu = - 2" "balance ny = 1" "balance nz = bal h z"
    using bu(2) byy(2) nu ny nz by (auto simp: bal_def)
  let ?bu = "if bal h z = - 1 then 1 else (0::int)"
  let ?by = "if bal h z = 1 then - 1 else (0::int)"
  let ?h3 = "h(u \<mapsto> nu\<lparr>balance := ?bu\<rparr>, y \<mapsto> ny\<lparr>balance := ?by\<rparr>, z \<mapsto> nz\<lparr>balance := 0\<rparr>)"
  have cz: "bal h z = 1 \<or> bal h z = 0 \<or> bal h z = - 1" using bz(2,3) by arith
  have run: "rebalance pol (Some u) H h
       = rotate_left pol (Some y) H ?h3 \<bind> rotate_right pol (Some u) H"
    using cz
  proof (elim disjE)
    assume "bal h z = 1"
    thus ?thesis using nu ny nz ne bn
      by (simp add: rebalance_def get_def deref_def modify_def)
  next
    assume "bal h z = 0"
    thus ?thesis using nu ny nz ne bn
      by (simp add: rebalance_def get_def deref_def modify_def)
  next
    assume "bal h z = - 1"
    thus ?thesis using nu ny nz ne bn
      by (simp add: rebalance_def get_def deref_def modify_def)
  qed
  have lk: "\<And>a. links ?h3 a = links h a" using nu ny nz by (auto simp: links_def)
  have vl: "\<And>a. map_option val (?h3 a) = map_option val (h a)" using nu ny nz by auto
  have ky: "\<And>a. key ?h3 a = key h a" using nu ny nz by (auto simp: key_def)
  have b3: "\<And>a. bal ?h3 a = (if a = z then 0 else if a = y then ?by else if a = u then ?bu
                               else bal h a)"
    using ne by (auto simp: bal_def)
  have wc3: "wfc ?h3 (Some H) ca (Some u)" using wc wfc_cong[of ca ?h3 h, OF lk] by simp
  have ws3: "wfs ?h3 (hole_parent (Some H) ca) ?S" using ws wfs_cong[of ?S ?h3 h, OF lk] by simp
  have hH3: "?h3 H = Some nH" using hH(1) ne by simp
  have q3: "Q ?h3 (plug ca ?S)" using qf q vl unfolding Q_frame_def by blast
  have p1: "plug ?ca' (Br l2 y (Br m1 z m2)) = plug ca ?S" by simp
  have w3: "wfc ?h3 (Some H) ?ca' (Some y) \<and> wfs ?h3 (Some u) (Br l2 y (Br m1 z m2))"
    using frame_down_left[OF wc3 ws3] by simp
  from rl[unfolded rot_left_spec_def, rule_format, of ?h3 H ?ca' y l2 m1 z m2 nH]
    w3 di Hn hH3 hH(2) q3
  obtain h4 nH4 where r4: "rotate_left pol (Some y) H ?h3 = Some h4"
      "wfc h4 (Some H) ?ca' (Some z)" "wfs h4 (hole_parent (Some H) ?ca') (Br (Br l2 y m1) z m2)"
      "h4 H = Some nH4" "parent nH4 = rootp (plug ?ca' (Br (Br l2 y m1) z m2))"
      "left nH4 = left nH" "right nH4 = right nH"
      "\<forall>a. a \<noteq> H \<longrightarrow> bal h4 a = bal ?h3 a \<and> key h4 a = key ?h3 a"
      "Q h4 (plug ?ca' (Br (Br l2 y m1) z m2))"
    by (simp only: p1 hole_parent.simps) blast
  have p2: "plug ?ca' (Br (Br l2 y m1) z m2) = plug ca ?S1" by simp
  have io1: "inorder (plug ca ?S1) = inorder (plug ca ?S)" by (simp add: inorder_plug)
  have r42: "wfc h4 (Some H) ?ca' (rootp (Br (Br l2 y m1) z m2))" using r4(2) by simp
  have r43: "wfs h4 (Some u) (Br (Br l2 y m1) z m2)" using r4(3) by simp
  have w4: "wfc h4 (Some H) ca (Some u) \<and> wfs h4 (hole_parent (Some H) ca) ?S1"
    by (rule frame_up_left[OF r42 r43])
  from rr[unfolded rot_right_spec_def, rule_format, of h4 H ca u "Br l2 y m1" z m2 r nH4]
    w4 di Hn r4(4,5,9)
  obtain h5 nH5 where r5: "rotate_right pol (Some u) H h4 = Some h5"
      "wfc h5 (Some H) ca (Some z)" "wfs h5 (hole_parent (Some H) ca) ?S2"
      "h5 H = Some nH5" "parent nH5 = rootp (plug ca ?S2)"
      "left nH5 = left nH4" "right nH5 = right nH4"
      "\<forall>a. a \<noteq> H \<longrightarrow> bal h5 a = bal h4 a \<and> key h5 a = key h4 a"
      "Q h5 (plug ca ?S2)"
    by (simp only: p2 io1) blast
  have b5: "\<And>a. a \<noteq> H \<Longrightarrow> bal h5 a = bal ?h3 a" using r5(8) r4(8) by simp
  have c: "\<And>a. a \<in> set (inorder r @ inorder m1 @ inorder m2 @ inorder l2) \<Longrightarrow> bal h5 a = bal h a"
  proof -
    fix a assume ain: "a \<in> set (inorder r @ inorder m1 @ inorder m2 @ inorder l2)"
    have "a \<noteq> u" "a \<noteq> y" "a \<noteq> z" "a \<noteq> H" using ain di' Hn' by auto
    thus "bal h5 a = bal h a" using b5[of a] b3[of a] by simp
  qed
  have bu5: "bal h5 u = ?bu" using b5[of u] b3[of u] ne by simp
  have by5: "bal h5 y = ?by" using b5[of y] b3[of y] ne by simp
  have bz5: "bal h5 z = 0" using b5[of z] b3[of z] ne by simp
  have a1: "avl (bal h5) ?S2"
    by (rule double_right_avl(1)[OF av bu byy bz bu5 by5 bz5 c])
  have a2: "int (height ?S2) = int (height ?S) - 1"
    by (rule double_right_avl(2)[OF av bu byy bz bu5 by5 bz5 c])
  have k: "\<forall>a. a \<noteq> H \<longrightarrow> key h5 a = key h a" using r5(8) r4(8) ky by simp
  have bo: "\<forall>a. a \<noteq> H \<longrightarrow> a \<notin> set (inorder ?S) \<longrightarrow> bal h5 a = bal h a"
    using b5 b3 by auto
  have "rebal_post Q h H ca ?S nH 1 h5"
  proof (rule rebal_postI[where S' = ?S2 and nH' = nH5])
    show "wfc h5 (Some H) ca (rootp ?S2)" using r5(2) by simp
    show "inorder ?S2 = inorder ?S" by simp
    show "left nH5 = left nH" using r5(6) r4(6) by simp
    show "right nH5 = right nH" using r5(7) r4(7) by simp
  qed (fact r5(3) a1 a2 r5(4) r5(5) k bo r5(9))+
  thus ?thesis using run r4(1) r5(1) by simp
qed

lemma rebalance_ok:
  fixes h :: "('k, 'v) store"
  assumes rl: "rot_left_spec Q (rotate_left pol)" and rr: "rot_right_spec Q (rotate_right pol)"
    and qf: "Q_frame Q"
    and wc: "wfc h (Some H) ca (Some u)"
    and ws: "wfs h (hole_parent (Some H) ca) (Br l u r)"
    and di: "distinct (inorder (plug ca (Br l u r)))"
    and Hn: "H \<notin> set (inorder (plug ca (Br l u r)))"
    and hH: "h H = Some nH" "parent nH = rootp (plug ca (Br l u r))"
    and bu: "bal h u = int (height r) - int (height l)" "- 2 \<le> bal h u" "bal h u \<le> 2"
    and av: "avl (bal h) l" "avl (bal h) r"
    and nzr: "bal h u = 2 \<Longrightarrow> \<exists>a. rootp r = Some a \<and> bal h a \<noteq> 0"
    and nzl: "bal h u = - 2 \<Longrightarrow> \<exists>a. rootp l = Some a \<and> bal h a \<noteq> 0"
    and q: "Q h (plug ca (Br l u r))"
  shows "\<exists>h'. rebalance pol (Some u) H h = Some h'
           \<and> rebal_post Q h H ca (Br l u r) nH (if \<bar>bal h u\<bar> = 2 then 1 else 0) h'"
proof -
  from ws obtain nu where nu: "h u = Some nu" by (auto split: option.splits)
  have bnu: "balance nu = bal h u" using nu by (simp add: bal_def)
  consider "bal h u = 2" | "bal h u = - 2" | "- 1 \<le> bal h u \<and> bal h u \<le> 1"
    using bu(2,3) by arith
  thus ?thesis
  proof cases
    case 3
    hence c: "bal h u = 1 \<or> bal h u = - 1 \<or> bal h u = 0" by arith
    have run: "rebalance pol (Some u) H h = Some h"
      using c nu bnu by (auto simp: rebalance_def get_def deref_def)
    have "rebal_post Q h H ca (Br l u r) nH 0 h"
    proof (rule rebal_postI[where S' = "Br l u r" and nH' = nH])
      show "wfc h (Some H) ca (rootp (Br l u r))" using wc by simp
      show "avl (bal h) (Br l u r)" using av bu(1) 3 by simp
    qed (use ws hH q in simp_all)
    thus ?thesis using run 3 by auto
  next
    case 1
    from nzr[OF 1] obtain y rl r2 where r: "r = Br rl y r2" "bal h y \<noteq> 0" by (cases r) auto
    have by1: "bal h y = int (height r2) - int (height rl)" "- 1 \<le> bal h y" "bal h y \<le> 1"
      and avr: "avl (bal h) rl" "avl (bal h) r2"
      using av(2) by (auto simp: r)
    have "bal h y = 1 \<or> bal h y = - 1" using by1(2,3) r(2) by arith
    thus ?thesis
    proof
      assume y1: "bal h y = 1"
      from rebalance_single_left[OF rl qf wc ws[unfolded r] di[unfolded r] Hn[unfolded r] hH(1)
          hH(2)[unfolded r] bu(1)[unfolded r] 1 by1(1) y1 av(1) avr q[unfolded r]]
      show ?thesis using 1 by (simp add: r)
    next
      assume y1: "bal h y = - 1"
      hence "rl \<noteq> Tip" using by1(1) by auto
      then obtain m1 z m2 where rl': "rl = Br m1 z m2" by (cases rl) auto
      have bz: "bal h z = int (height m2) - int (height m1)" "- 1 \<le> bal h z" "bal h z \<le> 1"
        and avm: "avl (bal h) m1" "avl (bal h) m2"
        using avr(1) by (auto simp: rl')
      from rebalance_double_left[OF rl rr qf wc ws[unfolded r rl'] di[unfolded r rl']
          Hn[unfolded r rl'] hH(1) hH(2)[unfolded r rl'] bu(1)[unfolded r rl'] 1
          by1(1)[unfolded rl'] y1 bz av(1) avm avr(2) q[unfolded r rl']]
      show ?thesis using 1 by (simp add: r rl')
    qed
  next
    case 2
    from nzl[OF 2] obtain y l2 lr where l: "l = Br l2 y lr" "bal h y \<noteq> 0" by (cases l) auto
    have by1: "bal h y = int (height lr) - int (height l2)" "- 1 \<le> bal h y" "bal h y \<le> 1"
      and avl': "avl (bal h) l2" "avl (bal h) lr"
      using av(1) by (auto simp: l)
    have "bal h y = - 1 \<or> bal h y = 1" using by1(2,3) l(2) by arith
    thus ?thesis
    proof
      assume y1: "bal h y = - 1"
      from rebalance_single_right[OF rr qf wc ws[unfolded l] di[unfolded l] Hn[unfolded l] hH(1)
          hH(2)[unfolded l] bu(1)[unfolded l] 2 by1(1) y1 av(2) avl'(2) avl'(1) q[unfolded l]]
      show ?thesis using 2 by (simp add: l)
    next
      assume y1: "bal h y = 1"
      hence "lr \<noteq> Tip" using by1(1) by auto
      then obtain m1 z m2 where lr': "lr = Br m1 z m2" by (cases lr) auto
      have bz: "bal h z = int (height m2) - int (height m1)" "- 1 \<le> bal h z" "bal h z \<le> 1"
        and avm: "avl (bal h) m1" "avl (bal h) m2"
        using avl'(2) by (auto simp: lr')
      from rebalance_double_right[OF rl rr qf wc ws[unfolded l lr'] di[unfolded l lr']
          Hn[unfolded l lr'] hH(1) hH(2)[unfolded l lr'] bu(1)[unfolded l lr'] 2
          by1(1)[unfolded lr'] y1 bz av(2) avm avl'(1) q[unfolded l lr']]
      show ?thesis using 2 by (simp add: l lr')
    qed
  qed
qed

section \<open>The balances after the walk\<close>

lemma cut_cases:
  "(cut b Z = Z \<and> cand b tp Z = tp \<and> (\<forall>fr \<in> set Z. b (fst (snd fr)) = 0))
   \<or> (\<exists>cb d u sib ca. Z = cb @ (d, u, sib) # ca \<and> cut b Z = cb @ [(d, u, sib)]
         \<and> cand b tp Z = Some u \<and> b u \<noteq> 0 \<and> (\<forall>fr \<in> set cb. b (fst (snd fr)) = 0))"
proof (induction Z)
  case Nil
  show ?case by simp
next
  case (Cons fr Z)
  obtain d a sib where fr: "fr = (d, a, sib)" by (cases fr)
  show ?case
  proof (cases "b a = 0")
    case False
    hence "fr # Z = [] @ (d, a, sib) # Z \<and> cut b (fr # Z) = [] @ [(d, a, sib)]
         \<and> cand b tp (fr # Z) = Some a \<and> b a \<noteq> 0 \<and> (\<forall>fr \<in> set []. b (fst (snd fr)) = 0)"
      by (simp add: fr)
    thus ?thesis by blast
  next
    case True
    from Cons.IH show ?thesis
    proof
      assume "cut b Z = Z \<and> cand b tp Z = tp \<and> (\<forall>fr \<in> set Z. b (fst (snd fr)) = 0)"
      thus ?thesis using True by (simp add: fr)
    next
      assume "\<exists>cb d u sib ca. Z = cb @ (d, u, sib) # ca \<and> cut b Z = cb @ [(d, u, sib)]
         \<and> cand b tp Z = Some u \<and> b u \<noteq> 0 \<and> (\<forall>fr \<in> set cb. b (fst (snd fr)) = 0)"
      then obtain cb d' u sib' ca where
        "Z = cb @ (d', u, sib') # ca" "cut b Z = cb @ [(d', u, sib')]"
        "cand b tp Z = Some u" "b u \<noteq> 0" "\<forall>fr \<in> set cb. b (fst (snd fr)) = 0"
        by blast
      hence "fr # Z = (fr # cb) @ (d', u, sib') # ca
           \<and> cut b (fr # Z) = (fr # cb) @ [(d', u, sib')]
           \<and> cand b tp (fr # Z) = Some u \<and> b u \<noteq> 0
           \<and> (\<forall>fr \<in> set (fr # cb). b (fst (snd fr)) = 0)"
        using True by (simp add: fr)
      thus ?thesis by blast
    qed
  qed
qed

lemma bumps_other: "a \<notin> fst ` snd ` set c \<Longrightarrow> bumps c h a = h a"
  by (induction c arbitrary: h) (auto simp: image_iff)

lemma bumps_at:
  "distinct (map (fst \<circ> snd) c) \<Longrightarrow> (d, a, sib) \<in> set c
   \<Longrightarrow> bumps c h a = map_option (bump d) (h a)"
proof (induction c arbitrary: h)
  case Nil
  thus ?case by simp
next
  case (Cons fr c)
  obtain d' a' sib' where fr: "fr = (d', a', sib')" by (cases fr)
  show ?case
  proof (cases "a' = a")
    case True
    hence n: "a \<notin> fst ` snd ` set c" using Cons.prems(1) by (auto simp: fr image_iff)
    hence "(d, a, sib) \<notin> set c" by (force simp: image_iff)
    hence "d' = d" using Cons.prems(2) True by (simp add: fr)
    thus ?thesis using True bumps_other[OF n, of "h(a := map_option (bump d) (h a))"]
      by (simp add: fr)
  next
    case False
    hence "(d, a, sib) \<in> set c" using Cons.prems(2) by (simp add: fr)
    from Cons.IH[OF _ this] Cons.prems(1) False show ?thesis by (simp add: fr)
  qed
qed

lemma frame_addr_before_after:
  "(d, a, sib) \<in> set c \<Longrightarrow> a \<in> set (before c @ after c) \<and> set (inorder sib) \<subseteq> set (before c @ after c)"
  by (induction c) auto

lemma distinct_frames:
  "distinct (before c @ after c) \<Longrightarrow> distinct (map (fst \<circ> snd) c)"
proof (induction c)
  case Nil
  show ?case by simp
next
  case (Cons fr c)
  obtain d a sib where fr: "fr = (d, a, sib)" by (cases fr)
  have "distinct (before c @ after c)" using Cons.prems by (cases d) (auto simp: fr)
  moreover have "a \<notin> set (before c @ after c)" using Cons.prems by (cases d) (auto simp: fr)
  hence "a \<notin> (fst \<circ> snd) ` set c" using frame_addr_before_after[of _ a _ c] by force
  ultimately show ?case using Cons.IH by (simp add: fr)
qed

lemma frame_not_in_sibling:
  "distinct (before c @ after c) \<Longrightarrow> (d, a, sib) \<in> set c \<Longrightarrow> (d', a', sib') \<in> set c
   \<Longrightarrow> a \<notin> set (inorder sib')"
proof (induction c)
  case Nil
  thus ?case by simp
next
  case (Cons fr c)
  obtain d0 a0 s0 where fr: "fr = (d0, a0, s0)" by (cases fr)
  have dc: "distinct (before c @ after c)" using Cons.prems(1) by (cases d0) (auto simp: fr)
  have dis: "set (a0 # inorder s0) \<inter> set (before c @ after c) = {}" "a0 \<notin> set (inorder s0)"
    using Cons.prems(1) by (cases d0; auto simp: fr)+
  show ?case
  proof (cases "(d, a, sib) = fr")
    case True
    show ?thesis
    proof (cases "(d', a', sib') = fr")
      case True
      thus ?thesis using \<open>(d, a, sib) = fr\<close> dis(2) by (auto simp: fr)
    next
      case False
      hence "(d', a', sib') \<in> set c" using Cons.prems(3) by auto
      from frame_addr_before_after[OF this] dis(1) True show ?thesis by (auto simp: fr)
    qed
  next
    case False
    hence in1: "(d, a, sib) \<in> set c" using Cons.prems(2) by auto
    show ?thesis
    proof (cases "(d', a', sib') = fr")
      case True
      from frame_addr_before_after[OF in1] dis(1) True show ?thesis by (auto simp: fr)
    next
      case False
      hence "(d', a', sib') \<in> set c" using Cons.prems(3) by auto
      from Cons.IH[OF dc in1 this] show ?thesis .
    qed
  qed
qed

lemma zero_height:
  "avlc b cb (height s) \<Longrightarrow> \<forall>fr \<in> set cb. b (fst (snd fr)) = 0
   \<Longrightarrow> height (plug cb s) = height s + length cb"
proof (induction cb arbitrary: s)
  case Nil
  show ?case by simp
next
  case (Cons fr cb)
  obtain d a sib where fr: "fr = (d, a, sib)" by (cases fr)
  have z: "b a = 0" using Cons.prems(2) by (simp add: fr)
  have hs: "height sib = height s" using Cons.prems(1) z by (cases d) (auto simp: fr)
  have hw: "height (wrap fr s) = Suc (height s)" using hs by (cases d) (auto simp: fr)
  have "avlc b cb (height (wrap fr s))" using Cons.prems(1) hs hw by (simp add: fr)
  from Cons.IH[OF this] Cons.prems(2) show ?case using hw by simp
qed

lemma grow_zero:
  assumes "avlc b cb n" "\<forall>fr \<in> set cb. b (fst (snd fr)) = 0"
    and "\<forall>(d, a, sib) \<in> set cb. b' a = (if d then - 1 else 1)"
    and "\<forall>(d, a, sib) \<in> set cb. \<forall>x \<in> set (inorder sib). b' x = b x"
    and "avl b' s'" "height s' = Suc n"
  shows "avl b' (plug cb s') \<and> height (plug cb s') = Suc n + length cb
     \<and> (cb \<noteq> [] \<longrightarrow> (\<exists>a. rootp (plug cb s') = Some a \<and> b' a \<noteq> 0))"
  using assms
proof (induction cb arbitrary: n s')
  case Nil
  thus ?case by simp
next
  case (Cons fr cb)
  obtain d a sib where fr: "fr = (d, a, sib)" by (cases fr)
  have z: "b a = 0" using Cons.prems(2) by (simp add: fr)
  have hs: "height sib = n" and as: "avl b sib" and ac: "avlc b cb (Suc n)"
    using Cons.prems(1) z by (cases d; auto simp: fr)+
  have b'a: "b' a = (if d then - 1 else 1)" using Cons.prems(3) by (simp add: fr)
  have "avl b' sib = avl b sib"
    using Cons.prems(4) by (intro avl_cong) (simp add: fr)
  hence as': "avl b' sib" using as by simp
  have aw: "avl b' (wrap fr s')" using as' Cons.prems(5,6) hs b'a by (cases d) (auto simp: fr)
  have hw: "height (wrap fr s') = Suc (Suc n)" using hs Cons.prems(6) by (cases d) (auto simp: fr)
  have p2: "\<forall>fr \<in> set cb. b (fst (snd fr)) = 0" using Cons.prems(2) by simp
  have p3: "\<forall>(d, a, sib) \<in> set cb. b' a = (if d then - 1 else 1)" using Cons.prems(3) by simp
  have p4: "\<forall>(d, a, sib) \<in> set cb. \<forall>x \<in> set (inorder sib). b' x = b x"
    using Cons.prems(4) by simp
  have IH: "avl b' (plug cb (wrap fr s')) \<and> height (plug cb (wrap fr s')) = Suc (Suc n) + length cb
     \<and> (cb \<noteq> [] \<longrightarrow> (\<exists>a. rootp (plug cb (wrap fr s')) = Some a \<and> b' a \<noteq> 0))"
    by (rule Cons.IH[OF ac p2 p3 p4 aw hw])
  have rt: "cb = [] \<Longrightarrow> rootp (plug (fr # cb) s') = Some a \<and> b' a \<noteq> 0"
    using b'a by (cases d) (auto simp: fr)
  show ?case using IH rt by (cases "cb = []") auto
qed

section \<open>Inserting a leaf\<close>

lemma wfs_dom: "wfs h p s \<Longrightarrow> a \<in> set (inorder s) \<Longrightarrow> h a \<noteq> None"
  by (induction s arbitrary: p) (auto split: option.splits)

lemma cut_prefix: "\<exists>r. Z = cut b Z @ r"
  by (induction Z) auto

lemma bal_eq:
  fixes h h' :: "('k, 'v) store"
  shows "map_option balance (h' a) = map_option balance (h a) \<Longrightarrow> bal h' a = bal h a"
  by (cases "h a"; cases "h' a") (auto simp: bal_def)

lemma key_eq:
  fixes h h' :: "('k, 'v) store"
  shows "map_option val (h' a) = map_option val (h a) \<Longrightarrow> key h' a = key h a"
  by (cases "h a"; cases "h' a") (auto simp: key_def)

lemma leaf_update_ok:
  fixes h0 :: "('k, 'v) store"
  assumes pol: "policy_ok Q LQ pol"
    and w: "wfs h0 (Some H) (plug Z Tip)" and hd: "header_ok h0 H (plug Z Tip)"
    and di: "distinct (before Z @ after Z)" and Hn: "H \<notin> set (before Z @ after Z)"
    and new: "new \<notin> set (before Z @ after Z)" "new \<noteq> H"
    and q: "Q h0 (plug Z Tip)" and lq: "LQ new v"
    and h: "h = h0(new \<mapsto> \<lparr>parent = hole_parent (Some H) Z, left = None, right = None,
              balance = 0, val = v\<rparr>)"
  shows "\<exists>h1 h2. link_leaf (top_dir Z) (hole_parent (Some H) Z) (Some new) H h = Some h1
      \<and> update pol (Some new) (cand (bal h0) (Some H) Z) H h1 = Some h2
      \<and> wfs h2 (Some H) (plug Z (Br Tip new Tip))
      \<and> header_ok h2 H (plug Z (Br Tip new Tip))
      \<and> Q h2 (plug Z (Br Tip new Tip))
      \<and> (\<forall>a. a \<noteq> H \<longrightarrow> a \<noteq> new \<longrightarrow> key h2 a = key h0 a)
      \<and> key h2 new = fst v \<and> bal h2 new = 0
      \<and> (\<forall>(d, a, sib) \<in> set (cut (bal h0) Z). bal h2 a = bal h0 a + (if d then - 1 else 1))
      \<and> (\<forall>a \<in> set (before Z @ after Z). a \<notin> fst ` snd ` set (cut (bal h0) Z)
             \<longrightarrow> bal h2 a = bal h0 a)"
proof -
  let ?t1 = "plug Z (Br Tip new Tip)"
  have io: "inorder (plug Z Tip) = before Z @ after Z" by (simp add: inorder_plug)
  have io1: "inorder ?t1 = before Z @ new # after Z" by (simp add: inorder_plug)
  have wc0: "wfc h0 (Some H) Z None" using w by (simp add: wfs_plug)
  from link_leaf_ok[OF wc0 hd di Hn new h] obtain h1 where
    l: "link_leaf (top_dir Z) (hole_parent (Some H) Z) (Some new) H h = Some h1"
       "wfc h1 (Some H) Z (Some new)" "h1 new = h new" "header_ok h1 H ?t1"
       "\<forall>a. map_option balance (h1 a) = map_option balance (h a)
             \<and> map_option val (h1 a) = map_option val (h a)"
    by blast
  let ?nx = "\<lparr>parent = hole_parent (Some H) Z, left = None, right = None, balance = 0, val = v\<rparr>"
  have h1new: "h1 new = Some ?nx" using l(3) by (simp add: h)
  from l(4) obtain nH where nH: "h1 H = Some nH" "parent nH = rootp ?t1"
      "left nH = Some (if inorder ?t1 = [] then H else hd (inorder ?t1))"
      "right nH = Some (if inorder ?t1 = [] then H else last (inorder ?t1))"
    by (auto simp: header_ok_def split: option.splits)
  have di1: "distinct (before Z @ new # after Z)" using di new(1) by auto
  have Hn1: "H \<notin> set (before Z @ new # after Z)" using Hn new(2) by auto
  have hh0: "\<And>a. a \<noteq> new \<Longrightarrow> h a = h0 a" by (simp add: h)
  have old1: "\<And>a. a \<noteq> new \<Longrightarrow> bal h1 a = bal h0 a"
    using l(5) bal_eq[of h1 _ h] hh0 by (simp add: bal_def)
  have old2: "\<And>a. a \<noteq> new \<Longrightarrow> key h1 a = key h0 a"
    using l(5) key_eq[of h1 _ h] hh0 by (simp add: key_def)
  have old3: "\<And>a. a \<noteq> new \<Longrightarrow> map_option val (h1 a) = map_option val (h0 a)"
    using l(5) hh0 by simp
  have b10: "\<And>a. a \<in> set (before Z @ after Z) \<Longrightarrow> bal h1 a = bal h0 a"
    using new(1) by (intro old1) auto
  have c1: "cand (bal h1) (Some H) Z = cand (bal h0) (Some H) Z" by (rule cand_cong[OF b10])
  have c2: "cut (bal h1) Z = cut (bal h0) Z" by (rule cut_cong[OF b10])
  have qf: "Q_frame Q" and us: "update_spec Q LQ (update pol)"
    using pol by (auto simp: policy_ok_def)
  have q1: "Q h1 (plug Z Tip)"
  proof -
    have "\<forall>a \<in> set (inorder (plug Z Tip)). map_option val (h1 a) = map_option val (h0 a)"
      using new(1) by (intro ballI old3) (auto simp: io)
    thus ?thesis using qf q unfolding Q_frame_def by blast
  qed
  from us[unfolded update_spec_def, rule_format, of h1 H Z new ?nx nH]
    l(2) h1new nH(1,2) di1 Hn1 q1 lq
  obtain h2 nH2 where
    u: "update pol (Some new) (cand (bal h1) (Some H) Z) H h1 = Some h2"
       "\<forall>a. a \<noteq> H \<longrightarrow> links h2 a = links h1 a \<and> key h2 a = key h1 a
              \<and> bal h2 a = bal (bumps (cut (bal h1) Z) h1) a"
       "h2 H = Some nH2" "parent nH2 = parent nH" "left nH2 = left nH" "right nH2 = right nH"
       "Q h2 ?t1"
    by auto
  have lk: "\<And>a. a \<in> set (before Z @ new # after Z) \<Longrightarrow> links h2 a = links h1 a"
    using u(2) Hn1 by auto
  have wc2: "wfc h2 (Some H) Z (Some new)"
    using l(2) lk by (subst wfc_cong[of Z h2 h1]) auto
  have "links h2 new = links h1 new" using lk by simp
  hence ws2: "wfs h2 (hole_parent (Some H) Z) (Br Tip new Tip)"
    using h1new by (cases "h2 new") (auto simp: links_def)
  have w2: "wfs h2 (Some H) ?t1" using wc2 ws2 by (simp add: wfs_plug)
  have hd2: "header_ok h2 H ?t1" using u(3-6) nH by (simp add: header_ok_def)
  have k2: "\<forall>a. a \<noteq> H \<longrightarrow> a \<noteq> new \<longrightarrow> key h2 a = key h0 a" using u(2) old2 by simp
  have knew: "key h2 new = fst v" using u(2) new(2) h1new by (simp add: key_def)
  have fa: "fst ` snd ` set (cut (bal h0) Z) \<subseteq> set (before Z @ after Z)"
  proof
    fix a assume "a \<in> fst ` snd ` set (cut (bal h0) Z)"
    then obtain d sib where "(d, a, sib) \<in> set (cut (bal h0) Z)" by force
    moreover obtain r where "Z = cut (bal h0) Z @ r" using cut_prefix by blast
    ultimately have "(d, a, sib) \<in> set Z" by (metis Un_iff set_append)
    thus "a \<in> set (before Z @ after Z)" using frame_addr_before_after by blast
  qed
  have bnew: "bal h2 new = 0"
  proof -
    have "new \<notin> fst ` snd ` set (cut (bal h0) Z)" using fa new(1) by auto
    hence "bumps (cut (bal h0) Z) h1 new = h1 new" by (rule bumps_other)
    thus ?thesis using u(2) new(2) h1new c2 by (simp add: bal_def)
  qed
  have dcut: "distinct (map (fst \<circ> snd) (cut (bal h0) Z))"
  proof -
    obtain r where r: "Z = cut (bal h0) Z @ r" using cut_prefix by blast
    have "distinct (map (fst \<circ> snd) Z)" using di by (rule distinct_frames)
    hence "distinct (map (fst \<circ> snd) (cut (bal h0) Z @ r))" using r by simp
    thus ?thesis by simp
  qed
  have bc: "\<forall>(d, a, sib) \<in> set (cut (bal h0) Z). bal h2 a = bal h0 a + (if d then - 1 else 1)"
  proof (clarify)
    fix d a sib assume in1: "(d, a, sib) \<in> set (cut (bal h0) Z)"
    hence ain: "a \<in> set (before Z @ after Z)" using fa by force
    hence aH: "a \<noteq> H" "a \<noteq> new" using Hn new(1) by auto
    have "h0 a \<noteq> None" using wfs_dom[OF w] ain by (simp add: io)
    then obtain n where n: "h0 a = Some n" by auto
    have "map_option balance (h1 a) = Some (balance n)"
      using l(5) hh0[OF aH(2)] n by simp
    then obtain n1 where n1: "h1 a = Some n1" "balance n1 = balance n"
      by (cases "h1 a") auto
    have "bumps (cut (bal h0) Z) h1 a = map_option (bump d) (h1 a)"
      by (rule bumps_at[OF dcut in1])
    thus "bal h2 a = bal h0 a + (if d then - 1 else 1)"
      using u(2) aH(1) c2 n n1 by (simp add: bal_def bump_def)
  qed
  have bo: "\<forall>a \<in> set (before Z @ after Z). a \<notin> fst ` snd ` set (cut (bal h0) Z)
             \<longrightarrow> bal h2 a = bal h0 a"
  proof (intro ballI impI)
    fix a assume ain: "a \<in> set (before Z @ after Z)"
      and nin: "a \<notin> fst ` snd ` set (cut (bal h0) Z)"
    have aH: "a \<noteq> H" "a \<noteq> new" using ain Hn new(1) by auto
    have "bumps (cut (bal h0) Z) h1 a = h1 a" using nin by (rule bumps_other)
    thus "bal h2 a = bal h0 a" using u(2) aH c2 old1[OF aH(2)] by (simp add: bal_def)
  qed
  show ?thesis using l(1) u(1) c1 w2 hd2 u(7) k2 knew bnew bc bo by auto
qed

lemma cand_left_balance:
  assumes "avl b0 (Br X u sib)" "b0 u \<noteq> 0" "height X' = Suc (height X)" "avl b2 X'"
    and "b2 u = b0 u - 1" "\<forall>x \<in> set (inorder sib). b2 x = b0 x"
    and "(\<exists>a. rootp X' = Some a \<and> b2 a \<noteq> 0) \<or> height X' = 1"
  shows "b2 u = int (height sib) - int (height X')" "- 2 \<le> b2 u" "b2 u \<le> 2"
    and "avl b2 X'" "avl b2 sib"
    and "b2 u = 2 \<Longrightarrow> \<exists>a. rootp sib = Some a \<and> b2 a \<noteq> 0"
    and "b2 u = - 2 \<Longrightarrow> \<exists>a. rootp X' = Some a \<and> b2 a \<noteq> 0"
    and "int (height (Br X' u sib)) - (if \<bar>b2 u\<bar> = 2 then 1 else 0) = int (height (Br X u sib))"
proof -
  have s: "avl b2 sib = avl b0 sib" using assms(6) by (intro avl_cong) simp
  show "avl b2 sib" using s assms(1) by simp
  show "avl b2 X'" by (rule assms(4))
  show "b2 u = int (height sib) - int (height X')" using assms(1,3,5) by simp
  show "- 2 \<le> b2 u" "b2 u \<le> 2" using assms(1,5) by auto
  show "b2 u = 2 \<Longrightarrow> \<exists>a. rootp sib = Some a \<and> b2 a \<noteq> 0" using assms(1,5) by auto
  show "b2 u = - 2 \<Longrightarrow> \<exists>a. rootp X' = Some a \<and> b2 a \<noteq> 0"
    using assms(1,3,5,7) by auto
  show "int (height (Br X' u sib)) - (if \<bar>b2 u\<bar> = 2 then 1 else 0) = int (height (Br X u sib))"
    using assms(1,2,3,5) by (auto simp: max_def)
qed

lemma cand_right_balance:
  assumes "avl b0 (Br sib u X)" "b0 u \<noteq> 0" "height X' = Suc (height X)" "avl b2 X'"
    and "b2 u = b0 u + 1" "\<forall>x \<in> set (inorder sib). b2 x = b0 x"
    and "(\<exists>a. rootp X' = Some a \<and> b2 a \<noteq> 0) \<or> height X' = 1"
  shows "b2 u = int (height X') - int (height sib)" "- 2 \<le> b2 u" "b2 u \<le> 2"
    and "avl b2 sib" "avl b2 X'"
    and "b2 u = 2 \<Longrightarrow> \<exists>a. rootp X' = Some a \<and> b2 a \<noteq> 0"
    and "b2 u = - 2 \<Longrightarrow> \<exists>a. rootp sib = Some a \<and> b2 a \<noteq> 0"
    and "int (height (Br sib u X')) - (if \<bar>b2 u\<bar> = 2 then 1 else 0) = int (height (Br sib u X))"
proof -
  have s: "avl b2 sib = avl b0 sib" using assms(6) by (intro avl_cong) simp
  show "avl b2 sib" using s assms(1) by simp
  show "avl b2 X'" by (rule assms(4))
  show "b2 u = int (height X') - int (height sib)" using assms(1,3,5) by simp
  show "- 2 \<le> b2 u" "b2 u \<le> 2" using assms(1,5) by auto
  show "b2 u = - 2 \<Longrightarrow> \<exists>a. rootp sib = Some a \<and> b2 a \<noteq> 0" using assms(1,5) by auto
  show "b2 u = 2 \<Longrightarrow> \<exists>a. rootp X' = Some a \<and> b2 a \<noteq> 0"
    using assms(1,3,5,7) by auto
  show "int (height (Br sib u X')) - (if \<bar>b2 u\<bar> = 2 then 1 else 0) = int (height (Br sib u X))"
    using assms(1,2,3,5) by (auto simp: max_def)
qed

lemma before_append: "before (c @ c') = before c' @ before c"
  by (induction c) auto

lemma after_append: "after (c @ c') = after c @ after c'"
  by (induction c) auto

lemma set_cut: "set (cut b Z) \<subseteq> set Z"
  by (induction Z) (auto split: if_splits)

lemma header_ok_inorder:
  "header_ok h H t \<Longrightarrow> inorder t' = inorder t \<Longrightarrow> h' H = Some nH' \<Longrightarrow> h H = Some nH
   \<Longrightarrow> parent nH' = rootp t' \<Longrightarrow> left nH' = left nH \<Longrightarrow> right nH' = right nH
   \<Longrightarrow> header_ok h' H t'"
  by (simp add: header_ok_def)

lemma insert_leaf_ok:
  fixes T :: "('k, 'v) avl_tree"
  assumes pol: "policy_ok Q LQ pol"
    and w: "wfs (store T) (Some (header T)) (plug Z Tip)"
    and hd: "header_ok (store T) (header T) (plug Z Tip)"
    and di: "distinct (before Z @ after Z)"
    and Hn: "header T \<notin> set (before Z @ after Z)"
    and fresh: "list_all (\<lambda>a. a < alloc T) (header T # before Z @ after Z)"
    and av: "avl (bal (store T)) (plug Z Tip)"
    and q: "Q (store T) (plug Z Tip)" and lq: "LQ (alloc T) v"
  shows "\<exists>T' t'. insert_leaf pol (top_dir Z) (hole_parent (Some (header T)) Z) v
            (cand (bal (store T)) (Some (header T)) Z) T = Some (T', Some (alloc T))
     \<and> wfs (store T') (Some (header T)) t' \<and> header_ok (store T') (header T) t'
     \<and> inorder t' = before Z @ alloc T # after Z
     \<and> avl (bal (store T')) t' \<and> Q (store T') t'
     \<and> header T' = header T \<and> alloc T' = Suc (alloc T) \<and> node_count T' = node_count T + 1
     \<and> (\<forall>a. a \<noteq> header T \<longrightarrow> a \<noteq> alloc T \<longrightarrow> key (store T') a = key (store T) a)
     \<and> key (store T') (alloc T) = fst v"
proof -
  let ?H = "header T" and ?new = "alloc T" and ?h0 = "store T"
  let ?b0 = "bal ?h0"
  let ?leaf = "Br Tip ?new Tip"
  let ?t1 = "plug Z ?leaf"
  let ?hl = "?h0(?new \<mapsto> \<lparr>parent = hole_parent (Some ?H) Z, left = None, right = None,
              balance = 0, val = v\<rparr>)"
  let ?u = "cand ?b0 (Some ?H) Z"
  have new: "?new \<notin> set (before Z @ after Z)" "?new \<noteq> ?H"
    using fresh by (auto simp: list_all_iff)
  from leaf_update_ok[OF pol w hd di Hn new q lq refl] obtain h1 h2 where
    lu: "link_leaf (top_dir Z) (hole_parent (Some ?H) Z) (Some ?new) ?H ?hl = Some h1"
        "update pol (Some ?new) ?u ?H h1 = Some h2"
        "wfs h2 (Some ?H) ?t1" "header_ok h2 ?H ?t1" "Q h2 ?t1"
        "\<forall>a. a \<noteq> ?H \<longrightarrow> a \<noteq> ?new \<longrightarrow> key h2 a = key ?h0 a"
        "key h2 ?new = fst v" "bal h2 ?new = 0"
        "\<forall>(d, a, sib) \<in> set (cut ?b0 Z). bal h2 a = ?b0 a + (if d then - 1 else 1)"
        "\<forall>a \<in> set (before Z @ after Z). a \<notin> fst ` snd ` set (cut ?b0 Z) \<longrightarrow> bal h2 a = ?b0 a"
    by blast
  let ?b2 = "bal h2"
  have bc: "\<And>d a s. (d, a, s) \<in> set (cut ?b0 Z) \<Longrightarrow> ?b2 a = ?b0 a + (if d then - 1 else 1)"
  proof -
    fix d a s assume "(d, a, s) \<in> set (cut ?b0 Z)"
    with lu(9) have "case (d, a, s) of (d, a, sib) \<Rightarrow> ?b2 a = ?b0 a + (if d then - 1 else 1)"
      by (rule bspec)
    thus "?b2 a = ?b0 a + (if d then - 1 else 1)" by simp
  qed
  have bo: "\<And>a. a \<in> set (before Z @ after Z) \<Longrightarrow> a \<notin> fst ` snd ` set (cut ?b0 Z)
      \<Longrightarrow> ?b2 a = ?b0 a"
    using lu(10) by blast
  have zf: "\<And>(c :: frame list) d a s. \<forall>fr \<in> set c. ?b0 (fst (snd fr)) = 0
      \<Longrightarrow> (d, a, s) \<in> set c \<Longrightarrow> ?b0 a = 0"
  proof -
    fix c :: "frame list" and d a s assume "\<forall>fr \<in> set c. ?b0 (fst (snd fr)) = 0" "(d, a, s) \<in> set c"
    hence "?b0 (fst (snd (d, a, s))) = 0" by (rule bspec)
    thus "?b0 a = 0" by simp
  qed
  have io1: "inorder ?t1 = before Z @ ?new # after Z" by (simp add: inorder_plug)
  have di1: "distinct (inorder ?t1)" using di new(1) by (auto simp: io1)
  have Hn1: "?H \<notin> set (inorder ?t1)" using Hn new(2) by (auto simp: io1)
  have aleaf: "avl ?b2 ?leaf" using lu(8) by simp
  have run0: "\<And>h3. (if ?u \<noteq> Some ?H then rebalance pol ?u ?H h2 else Some h2) = Some h3
     \<Longrightarrow> insert_leaf pol (top_dir Z) (hole_parent (Some ?H) Z) v ?u T
         = Some (T\<lparr>store := h3, node_count := node_count T + 1, alloc := Suc ?new\<rparr>, Some ?new)"
    using lu(1,2) by (simp add: insert_leaf_def Let_def)
  have sibs: "\<And>d a sib x. (d, a, sib) \<in> set Z \<Longrightarrow> x \<in> set (inorder sib)
      \<Longrightarrow> x \<in> set (before Z @ after Z) \<and> x \<notin> fst ` snd ` set Z"
  proof -
    fix d a sib x assume fr: "(d, a, sib) \<in> set Z" and x: "x \<in> set (inorder sib)"
    have "x \<in> set (before Z @ after Z)" using frame_addr_before_after[OF fr] x by auto
    moreover have "x \<notin> fst ` snd ` set Z"
    proof
      assume "x \<in> fst ` snd ` set Z"
      then obtain d' s' where "(d', x, s') \<in> set Z" by force
      from frame_not_in_sibling[OF di this fr] x show False by simp
    qed
    ultimately show "x \<in> set (before Z @ after Z) \<and> x \<notin> fst ` snd ` set Z" by simp
  qed
  from cut_cases[of ?b0 Z "Some ?H"] show ?thesis
  proof (elim disjE exE conjE)
    assume c: "cut ?b0 Z = Z" "?u = Some ?H" "\<forall>fr \<in> set Z. ?b0 (fst (snd fr)) = 0"
    have ac: "avlc ?b0 Z 0" using av by (simp add: avl_plug)
    have p3: "\<forall>(d, a, sib) \<in> set Z. ?b2 a = (if d then - 1 else 1)"
    proof (clarify)
      fix d a s assume in1: "(d, a, s) \<in> set Z"
      hence "(d, a, s) \<in> set (cut ?b0 Z)" by (simp add: c(1))
      from bc[OF this] zf[OF c(3) in1] show "?b2 a = (if d then - 1 else 1)" by simp
    qed
    have p4: "\<forall>(d, a, sib) \<in> set Z. \<forall>x \<in> set (inorder sib). ?b2 x = ?b0 x"
    proof (clarify)
      fix d a sib x assume "(d, a, sib) \<in> set Z" "x \<in> set (inorder sib)"
      from sibs[OF this] have "x \<in> set (before Z @ after Z)" "x \<notin> fst ` snd ` set (cut ?b0 Z)"
        by (simp_all add: c(1))
      thus "?b2 x = ?b0 x" by (rule bo)
    qed
    have a1: "avl ?b2 ?t1" using grow_zero[OF ac c(3) p3 p4 aleaf] by simp
    have "insert_leaf pol (top_dir Z) (hole_parent (Some ?H) Z) v ?u T
         = Some (T\<lparr>store := h2, node_count := node_count T + 1, alloc := Suc ?new\<rparr>, Some ?new)"
      by (rule run0) (simp add: c(2))
    thus ?thesis using lu(3-7) a1 io1
      by (intro exI[of _ "T\<lparr>store := h2, node_count := node_count T + 1, alloc := Suc ?new\<rparr>"]
          exI[of _ ?t1]) simp
  next
    fix cb d u sib ca
    assume c: "Z = cb @ (d, u, sib) # ca" "cut ?b0 Z = cb @ [(d, u, sib)]" "?u = Some u"
      "?b0 u \<noteq> 0" "\<forall>fr \<in> set cb. ?b0 (fst (snd fr)) = 0"
    let ?X = "plug cb Tip" and ?X' = "plug cb ?leaf"
    let ?So = "wrap (d, u, sib) ?X" and ?S = "wrap (d, u, sib) ?X'"
    have t0: "plug Z Tip = plug ca ?So" by (simp add: c(1) plug_append)
    have t1: "?t1 = plug ca ?S" by (simp add: c(1) plug_append)
    have uin: "(d, u, sib) \<in> set Z" by (simp add: c(1))
    have uH: "u \<noteq> ?H" using frame_addr_before_after[OF uin] Hn by auto
    have aSo: "avl ?b0 ?So" and aca: "avlc ?b0 ca (height ?So)"
      using av by (simp_all add: t0 avl_plug)
    have aX: "avl ?b0 ?X" and asib: "avl ?b0 sib" using aSo by (cases d; simp)+
    have acb: "avlc ?b0 cb 0" using aX by (simp add: avl_plug)
    have hX: "height ?X = length cb" using zero_height[of ?b0 cb Tip] acb c(5) by simp
    have p3: "\<forall>(d, a, sib) \<in> set cb. ?b2 a = (if d then - 1 else 1)"
    proof (clarify)
      fix d' a s' assume in1: "(d', a, s') \<in> set cb"
      hence "(d', a, s') \<in> set (cut ?b0 Z)" by (simp add: c(2))
      from bc[OF this] zf[OF c(5) in1] show "?b2 a = (if d' then - 1 else 1)" by simp
    qed
    have notcut: "\<And>d' a s' x. (d', a, s') \<in> set (cb @ [(d, u, sib)]) \<Longrightarrow> x \<in> set (inorder s')
        \<Longrightarrow> ?b2 x = ?b0 x"
    proof -
      fix d' a s' x assume in1: "(d', a, s') \<in> set (cb @ [(d, u, sib)])" and x: "x \<in> set (inorder s')"
      have "(d', a, s') \<in> set Z" using in1 by (auto simp: c(1))
      from sibs[OF this x] have "x \<in> set (before Z @ after Z)" "x \<notin> fst ` snd ` set Z" by auto
      moreover have "fst ` snd ` set (cut ?b0 Z) \<subseteq> fst ` snd ` set Z"
        using set_cut[of ?b0 Z] by blast
      ultimately have "x \<in> set (before Z @ after Z)" "x \<notin> fst ` snd ` set (cut ?b0 Z)"
        by blast+
      thus "?b2 x = ?b0 x" by (rule bo)
    qed
    have p4: "\<forall>(d, a, sib) \<in> set cb. \<forall>x \<in> set (inorder sib). ?b2 x = ?b0 x"
    proof (clarify)
      fix d' a s' x assume "(d', a, s') \<in> set cb" "x \<in> set (inorder s')"
      thus "?b2 x = ?b0 x" using notcut[of d' a s' x] by simp
    qed
    have g: "avl ?b2 ?X'" "height ?X' = Suc (length cb)"
        "cb \<noteq> [] \<longrightarrow> (\<exists>a. rootp ?X' = Some a \<and> ?b2 a \<noteq> 0)"
      using grow_zero[OF acb c(5) p3 p4 aleaf] by simp_all
    have hX': "height ?X' = Suc (height ?X)" using g(2) hX by simp
    have nzX: "(\<exists>a. rootp ?X' = Some a \<and> ?b2 a \<noteq> 0) \<or> height ?X' = 1"
      using g(2,3) by (cases "cb = []") auto
    have b2u: "?b2 u = ?b0 u + (if d then - 1 else 1)"
      by (rule bc[of d u sib]) (simp add: c(2))
    have bsib: "\<forall>x \<in> set (inorder sib). ?b2 x = ?b0 x"
      using notcut[of d u sib] by simp
    from lu(4) obtain nH2 where nH2: "h2 ?H = Some nH2" "parent nH2 = rootp ?t1"
      by (auto simp: header_ok_def split: option.splits)
    have qf: "Q_frame Q" and rl: "rot_left_spec Q (rotate_left pol)"
      and rr: "rot_right_spec Q (rotate_right pol)"
      using pol by (auto simp: policy_ok_def)
    have wp: "wfc h2 (Some ?H) ca (rootp ?S) \<and> wfs h2 (hole_parent (Some ?H) ca) ?S"
      using lu(3) by (simp only: t1 wfs_plug)
    have outer: "\<And>a. a \<in> set (before ca @ after ca) \<Longrightarrow> a \<noteq> ?H \<and> a \<notin> set (inorder ?S)
        \<and> ?b2 a = ?b0 a"
    proof -
      fix a assume a: "a \<in> set (before ca @ after ca)"
      have d1: "distinct (before ca @ inorder ?S @ after ca)"
        using di1 by (simp only: t1 inorder_plug)
      have "a \<in> set (inorder ?t1)" using a by (simp only: t1 inorder_plug) auto
      hence aH: "a \<noteq> ?H" using Hn1 by auto
      have aS: "a \<notin> set (inorder ?S)" using a d1 by auto
      have "fst ` snd ` set (cut ?b0 Z) \<subseteq> set (inorder ?S)"
      proof
        fix x assume "x \<in> fst ` snd ` set (cut ?b0 Z)"
        then obtain d' s' where "(d', x, s') \<in> set (cb @ [(d, u, sib)])"
          by (force simp: c(2))
        hence "x = u \<or> (d', x, s') \<in> set cb" by auto
        thus "x \<in> set (inorder ?S)"
          using frame_addr_before_after[of d' x s' cb] by (cases d) (auto simp: inorder_plug)
      qed
      hence "a \<notin> fst ` snd ` set (cut ?b0 Z)" using aS by auto
      moreover have "a \<in> set (before Z @ after Z)"
        using a by (cases d) (auto simp: c(1) before_append after_append)
      ultimately have "?b2 a = ?b0 a" using bo by blast
      thus "a \<noteq> ?H \<and> a \<notin> set (inorder ?S) \<and> ?b2 a = ?b0 a" using aH aS by simp
    qed
    let ?goal = ?thesis
    have finish: "\<And>h3 dh. rebalance pol (Some u) ?H h2 = Some h3
        \<Longrightarrow> rebal_post Q h2 ?H ca ?S nH2 dh h3 \<Longrightarrow> int (height ?S) - dh = int (height ?So)
        \<Longrightarrow> ?goal"
    proof -
      fix h3 dh
      assume r: "rebalance pol (Some u) ?H h2 = Some h3"
        and rp: "rebal_post Q h2 ?H ca ?S nH2 dh h3"
        and hh: "int (height ?S) - dh = int (height ?So)"
      from rp obtain S' nH' where
        p: "wfc h3 (Some ?H) ca (rootp S')" "wfs h3 (hole_parent (Some ?H) ca) S'"
           "inorder S' = inorder ?S" "avl (bal h3) S'" "int (height S') = int (height ?S) - dh"
           "h3 ?H = Some nH'" "parent nH' = rootp (plug ca S')"
           "left nH' = left nH2" "right nH' = right nH2"
           "\<forall>a. a \<noteq> ?H \<longrightarrow> key h3 a = key h2 a"
           "\<forall>a. a \<noteq> ?H \<longrightarrow> a \<notin> set (inorder ?S) \<longrightarrow> bal h3 a = bal h2 a"
           "Q h3 (plug ca S')"
        unfolding rebal_post_def by blast
      let ?t' = "plug ca S'"
      let ?T' = "T\<lparr>store := h3, node_count := node_count T + 1, alloc := Suc ?new\<rparr>"
      have run: "insert_leaf pol (top_dir Z) (hole_parent (Some ?H) Z) v ?u T = Some (?T', Some ?new)"
        by (rule run0) (simp add: c(3) uH r)
      have w3: "wfs h3 (Some ?H) ?t'" using p(1,2) by (simp add: wfs_plug)
      have io': "inorder ?t' = inorder ?t1" using p(3) by (simp only: t1 inorder_plug)
      have hd3: "header_ok h3 ?H ?t'"
        by (rule header_ok_inorder[where h = h2 and h' = h3 and nH = nH2 and nH' = nH',
              OF lu(4) io' p(6) nH2(1) p(7) p(8) p(9)])
      have hS': "height S' = height ?So" using p(5) hh by simp
      have "avlc (bal h3) ca (height S') = avlc ?b0 ca (height S')"
      proof (rule avlc_cong)
        fix a assume "a \<in> set (before ca @ after ca)"
        from outer[OF this] p(11) show "bal h3 a = ?b0 a" by simp
      qed
      hence a3: "avl (bal h3) ?t'" using p(4) aca hS' by (simp add: avl_plug)
      have k3: "\<forall>a. a \<noteq> ?H \<longrightarrow> a \<noteq> ?new \<longrightarrow> key h3 a = key ?h0 a" using p(10) lu(6) by simp
      have kn: "key h3 ?new = fst v" using p(10) lu(7) new(2) by simp
      show ?goal using run w3 hd3 io' io1 a3 p(12) k3 kn
        by (intro exI[of _ ?T'] exI[of _ ?t']) simp
    qed
    show ?thesis
    proof (cases d)
      case True
      have aSo': "avl ?b0 (Br ?X u sib)" using aSo True by simp
      have b2u': "?b2 u = ?b0 u - 1" using b2u True by simp
      note cl = cand_left_balance[OF aSo' c(4) hX' g(1) b2u' bsib nzX]
      have S: "?S = Br ?X' u sib" using True by simp
      have wc: "wfc h2 (Some ?H) ca (Some u)" and ws: "wfs h2 (hole_parent (Some ?H) ca) (Br ?X' u sib)"
        using wp \<open>d\<close> by simp_all
      from rebalance_ok[OF rl rr qf wc ws di1[unfolded t1 S] Hn1[unfolded t1 S] nH2(1)
          nH2(2)[unfolded t1 S] cl(1-5) cl(6) cl(7) lu(5)[unfolded t1 S]]
      obtain h3 where r: "rebalance pol (Some u) ?H h2 = Some h3"
        "rebal_post Q h2 ?H ca (Br ?X' u sib) nH2 (if \<bar>?b2 u\<bar> = 2 then 1 else 0) h3"
        by blast
      show ?thesis
        by (rule finish[OF r(1)]) (use r(2) cl(8) True in simp_all)
    next
      case False
      have aSo': "avl ?b0 (Br sib u ?X)" using aSo False by simp
      have b2u': "?b2 u = ?b0 u + 1" using b2u False by simp
      note cl = cand_right_balance[OF aSo' c(4) hX' g(1) b2u' bsib nzX]
      have S: "?S = Br sib u ?X'" using False by simp
      have wc: "wfc h2 (Some ?H) ca (Some u)" and ws: "wfs h2 (hole_parent (Some ?H) ca) (Br sib u ?X')"
        using wp \<open>\<not> d\<close> by simp_all
      from rebalance_ok[OF rl rr qf wc ws di1[unfolded t1 S] Hn1[unfolded t1 S] nH2(1)
          nH2(2)[unfolded t1 S] cl(1-5) cl(6) cl(7) lu(5)[unfolded t1 S]]
      obtain h3 where r: "rebalance pol (Some u) ?H h2 = Some h3"
        "rebal_post Q h2 ?H ca (Br sib u ?X') nH2 (if \<bar>?b2 u\<bar> = 2 then 1 else 0) h3"
        by blast
      show ?thesis
        by (rule finish[OF r(1)]) (use r(2) cl(8) False in simp_all)
    qed
  qed
qed
lemma sorted_key_distinct:
  fixes kf :: "addr \<Rightarrow> 'o::linorder"
  shows "sorted_wrt (\<lambda>a a'. kf a < kf a') xs \<Longrightarrow> distinct xs"
  by (induction xs) auto

lemma top_dir_no_before: "before c = [] \<Longrightarrow> top_dir c"
  by (cases c) (auto split: if_splits)

lemma top_dir_after_ne: "c \<noteq> [] \<Longrightarrow> top_dir c \<Longrightarrow> after c \<noteq> []"
  by (cases c) auto

text \<open>
  What \<open>insert\<close> does on a well-formed tree, in terms of the position \<open>Z\<close> where
  the descent leaves the tree: the key is new iff nothing precedes the position
  or the predecessor's key is smaller.
\<close>

lemma avl_insert_run:
  fixes T :: "('k, 'v) avl_tree" and f :: "'k \<Rightarrow> 'o::linorder" and v :: "'k \<times> 'v"
  assumes inv: "tree_inv f T t"
  defines "Z \<equiv> descend (\<lambda>a. f (key (store T) a)) (f (fst v)) t []"
  shows "avl_insert (\<lambda>x y. f x < f y) pol v T =
     (if before Z = [] \<or> f (key (store T) (last (before Z))) < f (fst v)
      then do {
        (t', leaf) \<leftarrow> insert_leaf pol (top_dir Z) (hole_parent (Some (header T)) Z) v
                        (cand (bal (store T)) (Some (header T)) Z) T;
        Some (t', leaf, True) }
      else Some (T, Some (last (before Z)), False))"
proof -
  let ?h = "store T" and ?H = "header T"
  from inv have w: "wfs ?h (Some ?H) t" and hd: "header_ok ?h ?H t"
    and Hn: "?H \<notin> set (inorder t)"
    and so: "sorted_wrt (\<lambda>a a'. f (key ?h a) < f (key ?h a')) (inorder t)"
    by (simp_all add: tree_inv_def)
  have pz: "plug Z Tip = t" by (simp add: Z_def plug_descend)
  have io: "inorder t = before Z @ after Z" using inorder_plug[of Z Tip] pz by simp
  have di: "distinct (before Z @ after Z)" using sorted_key_distinct[OF so] io by simp
  from hd obtain nH where nH: "?h ?H = Some nH" "parent nH = rootp t"
    "left nH = Some (if inorder t = [] then ?H else hd (inorder t))"
    by (auto simp: header_ok_def split: option.splits)
  have wz: "wfc ?h (Some ?H) Z None" using w wfs_plug[of ?h "Some ?H" Z Tip] pz by simp
  have loop: "insert_loop (\<lambda>x y. f x < f y) ?h (fst v) (rootp t) (Some ?H) (Some ?H) True
      = Some (hole_parent (Some ?H) Z, cand (bal ?h) (Some ?H) Z, top_dir Z)"
    using insert_loop_descend[of ?h "Some ?H" "[]" t f "fst v"] w
    by (simp add: Z_def Let_def)
  have first: "(top_dir Z \<and> hole_parent (Some ?H) Z = left nH) = (before Z = [])"
  proof (cases "Z = []")
    case True
    thus ?thesis using nH(3) io by simp
  next
    case False
    show ?thesis
    proof (cases "top_dir Z")
      case True
      have an: "after Z \<noteq> []" by (rule top_dir_after_ne[OF False True])
      have y: "hole_parent (Some ?H) Z = Some (hd (after Z))" by (rule top_dir_after[OF False True])
      have "(hd (after Z) = hd (before Z @ after Z)) = (before Z = [])"
      proof (cases "before Z")
        case Nil thus ?thesis by simp
      next
        case (Cons b bs)
        have "hd (after Z) \<in> set (after Z)" using an by simp
        thus ?thesis using di Cons by auto
      qed
      thus ?thesis using True y nH(3) io an by simp
    next
      case F: False
      thus ?thesis using top_dir_no_before[of Z] by auto
    qed
  qed
  have pred: "before Z \<noteq> [] \<Longrightarrow>
      (if top_dir Z then avl_tree_decrement ?h (hole_parent (Some ?H) Z)
       else Some (hole_parent (Some ?H) Z)) = Some (Some (last (before Z)))"
  proof -
    assume bn: "before Z \<noteq> []"
    hence zn: "Z \<noteq> []" by auto
    show ?thesis
    proof (cases "top_dir Z")
      case False
      thus ?thesis using top_dir_before[OF zn False] by simp
    next
      case True
      from zn True obtain a0 sib c where z: "Z = (True, a0, sib) # c"
        by (cases Z) auto
      from wz z obtain n0 where n0: "?h a0 = Some n0" "parent n0 = hole_parent (Some ?H) c"
        "left n0 = None" "wfc ?h (Some ?H) c (Some a0)"
        by (auto split: option.splits)
      have lr: "lowest_right c = Some (last (before Z))"
        using bn z by (simp add: lowest_right_before)
      have d0: "distinct (before c @ a0 # after c)" using di z by auto
      have "decrement_up ?h (Some a0) (hole_parent (Some ?H) c) = Some (Some (last (before Z)))"
        by (rule decrement_up_climb[OF n0(4) lr d0])
      thus ?thesis using True z n0 by (simp add: avl_tree_decrement_def get_def deref_def)
    qed
  qed
  have lastin: "before Z \<noteq> [] \<Longrightarrow> ?h (last (before Z)) \<noteq> None"
  proof -
    assume "before Z \<noteq> []"
    hence "last (before Z) \<in> set (inorder t)" using io by simp
    thus ?thesis using wfs_dom[OF w] by blast
  qed
  show ?thesis
  proof (cases "before Z = []")
    case True
    thus ?thesis using nH(1,2) loop first
      by (simp add: avl_insert_def get_def deref_def begin_it_def end_it_def)
  next
    case False
    from lastin[OF False] obtain nj where nj: "?h (last (before Z)) = Some nj" by auto
    have k: "key ?h (last (before Z)) = fst (val nj)" using nj by (simp add: key_def)
    have nf: "\<not> (top_dir Z \<and> hole_parent (Some ?H) Z = left nH)" using first False by simp
    show ?thesis using False nH(1,2) loop nf pred[OF False] nj k
      by (simp add: avl_insert_def get_def deref_def begin_it_def end_it_def del: de_Morgan_conj)
  qed
qed

lemma sorted_wrt_last:
  "sorted_wrt P xs \<Longrightarrow> a \<in> set xs \<Longrightarrow> a \<noteq> last xs \<Longrightarrow> P a (last xs)"
proof -
  assume s: "sorted_wrt P xs" and a: "a \<in> set xs" and n: "a \<noteq> last xs"
  from a have ne: "xs \<noteq> []" by auto
  hence xs: "xs = butlast xs @ [last xs]" by simp
  have "sorted_wrt P (butlast xs @ [last xs])" using s xs by simp
  hence "\<forall>x \<in> set (butlast xs). P x (last xs)" by (simp add: sorted_wrt_append)
  moreover have "a \<in> set (butlast xs)" using a n xs
    by (metis Un_iff empty_iff empty_set set_ConsD set_append)
  ultimately show ?thesis by blast
qed

text \<open>The position of the descent splits the keys around the new key.\<close>

lemma descend_bounds:
  fixes T :: "('k, 'v) avl_tree" and f :: "'k \<Rightarrow> 'o::linorder" and k :: 'k
  assumes inv: "tree_inv f T t"
  defines "Z \<equiv> descend (\<lambda>a. f (key (store T) a)) (f k) t []"
  shows "plug Z Tip = t" "inorder t = before Z @ after Z"
    "\<forall>x \<in> set (before Z). f (key (store T) x) \<le> f k"
    "\<forall>x \<in> set (after Z). f k < f (key (store T) x)"
proof -
  let ?kf = "\<lambda>a. f (key (store T) a)"
  show pz: "plug Z Tip = t" by (simp add: Z_def plug_descend)
  show io: "inorder t = before Z @ after Z" using inorder_plug[of Z Tip] pz by simp
  have d: "list_all (\<lambda>(d, a, sib). d = (f k < ?kf a)) Z"
    unfolding Z_def by (rule dirs_descend) simp
  have so: "sorted_wrt (\<lambda>a a'. ?kf a < ?kf a') (before Z @ after Z)"
    using inv io by (simp add: tree_inv_def)
  from dirs_sorted[OF d so]
  show "\<forall>x \<in> set (before Z). f (key (store T) x) \<le> f k"
    "\<forall>x \<in> set (after Z). f k < f (key (store T) x)" by blast+
qed

lemma avl_insert_dup:
  fixes T :: "('k, 'v) avl_tree" and f :: "'k \<Rightarrow> 'o::linorder" and v :: "'k \<times> 'v"
  assumes inv: "tree_inv f T t" and a: "a \<in> set (inorder t)"
    and eq: "f (key (store T) a) = f (fst v)"
  shows "avl_insert (\<lambda>x y. f x < f y) pol v T = Some (T, Some a, False)"
proof -
  let ?kf = "\<lambda>a. f (key (store T) a)"
  define Z where "Z = descend ?kf (f (fst v)) t []"
  note b = descend_bounds[OF inv, of "fst v", folded Z_def]
  have so: "sorted_wrt (\<lambda>a a'. ?kf a < ?kf a') (before Z)"
    using inv b(2) by (simp add: tree_inv_def sorted_wrt_append)
  have ab: "a \<in> set (before Z)" using a b(2,4) eq by auto
  hence ne: "before Z \<noteq> []" by auto
  have "a = last (before Z)"
  proof (rule ccontr)
    assume "a \<noteq> last (before Z)"
    from sorted_wrt_last[OF so ab this] have "?kf a < ?kf (last (before Z))" .
    moreover have "?kf (last (before Z)) \<le> f (fst v)" using b(3) ne by simp
    ultimately show False using eq by simp
  qed
  thus ?thesis using avl_insert_run[OF inv, of pol v, folded Z_def] ne eq by simp
qed

lemma avl_insert_new:
  fixes T :: "('k, 'v) avl_tree" and f :: "'k \<Rightarrow> 'o::linorder" and v :: "'k \<times> 'v"
  assumes inv: "tree_inv f T t" and pol: "policy_ok Q LQ pol"
    and q: "Q (store T) t" and lq: "LQ (alloc T) v"
    and new: "\<forall>a \<in> set (inorder t). f (key (store T) a) \<noteq> f (fst v)"
  shows "\<exists>T' t' xs ys. avl_insert (\<lambda>x y. f x < f y) pol v T = Some (T', Some (alloc T), True)
     \<and> tree_inv f T' t' \<and> Q (store T') t'
     \<and> inorder t = xs @ ys \<and> inorder t' = xs @ alloc T # ys
     \<and> header T' = header T \<and> alloc T' = Suc (alloc T) \<and> node_count T' = node_count T + 1
     \<and> (\<forall>a. a \<noteq> header T \<longrightarrow> a \<noteq> alloc T \<longrightarrow> key (store T') a = key (store T) a)
     \<and> key (store T') (alloc T) = fst v"
proof -
  let ?kf = "\<lambda>a. f (key (store T) a)" and ?H = "header T" and ?new = "alloc T"
  define Z where "Z = descend ?kf (f (fst v)) t []"
  note b = descend_bounds[OF inv, of "fst v", folded Z_def]
  from inv have w: "wfs (store T) (Some ?H) t" and hd: "header_ok (store T) ?H t"
    and Hn: "?H \<notin> set (inorder t)"
    and fr: "list_all (\<lambda>a. a < alloc T) (?H # inorder t)"
    and so: "sorted_wrt (\<lambda>a a'. ?kf a < ?kf a') (inorder t)"
    and av: "avl (bal (store T)) t"
    by (simp_all add: tree_inv_def)
  have di: "distinct (before Z @ after Z)" using sorted_key_distinct[OF so] b(2) by simp
  have lt: "\<forall>x \<in> set (before Z). ?kf x < f (fst v)"
    using b(2,3) new by (auto simp: order.strict_iff_order)
  have br: "before Z = [] \<or> ?kf (last (before Z)) < f (fst v)"
    using lt last_in_set[of "before Z"] by blast
  from insert_leaf_ok[OF pol, of T Z v] w hd di Hn fr av q lq b(1,2)
  obtain T' t' where r: "insert_leaf pol (top_dir Z) (hole_parent (Some ?H) Z) v
        (cand (bal (store T)) (Some ?H) Z) T = Some (T', Some ?new)"
    "wfs (store T') (Some ?H) t'" "header_ok (store T') ?H t'"
    "inorder t' = before Z @ ?new # after Z" "avl (bal (store T')) t'" "Q (store T') t'"
    "header T' = ?H" "alloc T' = Suc ?new" "node_count T' = node_count T + 1"
    "\<forall>a. a \<noteq> ?H \<longrightarrow> a \<noteq> ?new \<longrightarrow> key (store T') a = key (store T) a"
    "key (store T') ?new = fst v"
    by auto
  have run: "avl_insert (\<lambda>x y. f x < f y) pol v T = Some (T', Some ?new, True)"
    using avl_insert_run[OF inv, of pol v, folded Z_def] br r(1) by simp
  have old: "\<forall>x \<in> set (before Z @ after Z). x < ?new \<and> x \<noteq> ?H"
    using fr Hn b(2) by (auto simp: list_all_iff)
  have ko: "\<And>x. x \<in> set (before Z @ after Z) \<Longrightarrow> f (key (store T') x) = ?kf x"
    using old r(10) by auto
  have so': "sorted_wrt (\<lambda>a a'. f (key (store T') a) < f (key (store T') a'))
      (before Z @ ?new # after Z)"
  proof -
    have "sorted_wrt (\<lambda>a a'. ?kf a < ?kf a') (before Z @ after Z)" using so b(2) by simp
    hence "sorted_wrt (\<lambda>a a'. f (key (store T') a) < f (key (store T') a')) (before Z @ after Z)"
      by (rule sorted_wrt_mono_rel[rotated]) (use ko in simp)
    thus ?thesis using lt b(4) ko r(11) by (auto simp: sorted_wrt_append)
  qed
  have Hlt: "?H < ?new" using fr by simp
  have old': "\<forall>x \<in> set (before Z @ ?new # after Z). x < Suc ?new \<and> x \<noteq> ?H"
  proof
    fix x assume "x \<in> set (before Z @ ?new # after Z)"
    hence "x = ?new \<or> x \<in> set (before Z @ after Z)" by auto
    thus "x < Suc ?new \<and> x \<noteq> ?H" using old Hlt by (auto simp: less_Suc_eq)
  qed
  have fr': "list_all (\<lambda>a. a < alloc T') (header T' # inorder t')"
    using old' Hlt r(4,7,8) by (simp add: list_all_iff less_Suc_eq)
  have Hn': "header T' \<notin> set (inorder t')" using old' r(4,7) by auto
  have inv': "tree_inv f T' t'"
    unfolding tree_inv_def using r(2,3,5) so' fr' Hn' by (simp add: r(4,7))
  show ?thesis using run inv' r b(2) by blast
qed
section \<open>The in-order walk\<close>

lemma focus: "a \<in> set (inorder t) \<Longrightarrow> \<exists>c l r. t = plug c (Br l a r)"
proof (induction t)
  case Tip
  thus ?case by simp
next
  case (Br l b r)
  consider "a = b" | "a \<in> set (inorder l)" | "a \<in> set (inorder r)"
    using Br.prems by auto
  thus ?case
  proof cases
    case 1
    have "Br l b r = plug [] (Br l a r)" using 1 by simp
    thus ?thesis by blast
  next
    case 2
    from Br.IH(1)[OF 2] obtain c l' r' where "l = plug c (Br l' a r')" by blast
    hence "Br l b r = plug (c @ [(True, b, r)]) (Br l' a r')" by (simp add: plug_append)
    thus ?thesis by blast
  next
    case 3
    from Br.IH(2)[OF 3] obtain c l' r' where "r = plug c (Br l' a r')" by blast
    hence "Br l b r = plug (c @ [(False, b, l)]) (Br l' a r')" by (simp add: plug_append)
    thus ?thesis by blast
  qed
qed

lemma inorder_empty: "(inorder s = []) = (s = Tip)"
  by (cases s) auto

lemma increment_down_leftmost:
  "wfs h p s \<Longrightarrow> s \<noteq> Tip \<Longrightarrow> increment_down h (rootp s) = Some (Some (hd (inorder s)))"
proof (induction s arbitrary: p)
  case Tip
  thus ?case by simp
next
  case (Br l a r)
  from Br.prems(1) obtain n where n: "h a = Some n" "left n = rootp l" "wfs h (Some a) l"
    by (auto split: option.splits)
  show ?case
  proof (cases l)
    case Tip
    thus ?thesis using n by (subst increment_down.simps) (simp add: get_def deref_def)
  next
    case (Br ll b lr)
    hence ne: "l \<noteq> Tip" "rootp l \<noteq> None" "inorder l \<noteq> []" by simp_all
    have "increment_down h (rootp l) = Some (Some (hd (inorder l)))"
      by (rule Br.IH(1)[OF n(3) ne(1)])
    thus ?thesis using n ne(2,3) by (subst increment_down.simps) (simp add: get_def deref_def)
  qed
qed

lemma increment_up_climb:
  "wfc h tp c (Some x) \<Longrightarrow> lowest_left c = Some a \<Longrightarrow> distinct (before c @ x # after c)
   \<Longrightarrow> \<exists>x'. increment_up h (Some x) (hole_parent tp c) = Some (Some x', Some a)
        \<and> (x' = x \<or> (\<exists>n' z. h x' = Some n' \<and> right n' = Some z \<and> z \<in> set (before c @ [x])))"
proof (induction c arbitrary: x)
  case Nil
  thus ?case by simp
next
  case (Cons fr c)
  obtain d a' sib where fr: "fr = (d, a', sib)" by (cases fr)
  from Cons.prems(1) obtain n where n: "h a' = Some n" "parent n = hole_parent tp c"
    "if d then left n = Some x \<and> right n = rootp sib else right n = Some x \<and> left n = rootp sib"
    "wfc h tp c (Some a')"
    by (auto simp: fr split: option.splits)
  show ?case
  proof (cases d)
    case False
    have ll: "lowest_left c = Some a" using Cons.prems(2) False by (simp add: fr)
    have di: "distinct (before c @ a' # after c)" using Cons.prems(3) False by (auto simp: fr)
    from Cons.IH[OF n(4) ll di] obtain x' where x':
      "increment_up h (Some a') (hole_parent tp c) = Some (Some x', Some a)"
      "x' = a' \<or> (\<exists>n' z. h x' = Some n' \<and> right n' = Some z \<and> z \<in> set (before c @ [a']))"
      by blast
    have run: "increment_up h (Some x) (hole_parent tp (fr # c)) = Some (Some x', Some a)"
      using n False x'(1) by (subst increment_up.simps) (simp add: fr get_def deref_def)
    have "\<exists>n' z. h x' = Some n' \<and> right n' = Some z \<and> z \<in> set (before (fr # c) @ [x])"
      using x'(2) n False by (auto simp: fr)
    thus ?thesis using run by blast
  next
    case True
    have a: "a' = a" using Cons.prems(2) True by (simp add: fr)
    have "x \<notin> set (inorder sib)" using Cons.prems(3) True by (auto simp: fr)
    hence "rootp sib \<noteq> Some x" by (cases sib) auto
    hence "increment_up h (Some x) (hole_parent tp (fr # c)) = Some (Some x, Some a)"
      using n True a by (subst increment_up.simps) (auto simp: fr get_def deref_def)
    thus ?thesis by blast
  qed
qed

lemma increment_up_spine:
  "wfc h tp c (Some x) \<Longrightarrow> lowest_left c = None
   \<Longrightarrow> increment_up h (Some x) (hole_parent tp c) = increment_up h (rootp (plug c (Br l x r))) tp"
proof (induction c arbitrary: x l r)
  case Nil
  thus ?case by simp
next
  case (Cons fr c)
  obtain d a' sib where fr: "fr = (d, a', sib)" by (cases fr)
  have d: "\<not> d" using Cons.prems(2) by (auto simp: fr split: if_splits)
  from Cons.prems(1) d obtain n where n: "h a' = Some n" "parent n = hole_parent tp c"
    "right n = Some x" "wfc h tp c (Some a')"
    by (auto simp: fr split: option.splits)
  have ll: "lowest_left c = None" using Cons.prems(2) d by (simp add: fr)
  have "increment_up h (Some x) (hole_parent tp (fr # c))
      = increment_up h (Some a') (hole_parent tp c)"
    using n by (subst increment_up.simps) (simp add: fr get_def deref_def)
  also have "\<dots> = increment_up h (rootp (plug c (Br sib a' (Br l x r)))) tp"
    by (rule Cons.IH[OF n(4) ll])
  finally show ?case using d by (simp add: fr)
qed

text \<open>\<open>++\<close> moves an iterator to the next node in order, and from the last node to the header.\<close>

lemma increment_succ:
  fixes h :: "('k, 'v) store"
  assumes w: "wfs h (Some H) (plug c (Br l x r))"
    and hd: "header_ok h H (plug c (Br l x r))"
    and di: "distinct (inorder (plug c (Br l x r)))"
    and Hn: "H \<notin> set (inorder (plug c (Br l x r)))"
  shows "avl_tree_increment h (Some x)
     = Some (Some (case inorder r @ after c of [] \<Rightarrow> H | y # ys \<Rightarrow> y))"
proof -
  let ?t = "plug c (Br l x r)"
  have io: "inorder ?t = before c @ inorder l @ x # inorder r @ after c"
    by (simp add: inorder_plug)
  from w have wc: "wfc h (Some H) c (Some x)" and ws: "wfs h (hole_parent (Some H) c) (Br l x r)"
    by (simp_all add: wfs_plug)
  from ws obtain n where n: "h x = Some n" "parent n = hole_parent (Some H) c"
    "right n = rootp r" "wfs h (Some x) r"
    by (auto split: option.splits)
  show ?thesis
  proof (cases r)
    case (Br rl b rr)
    hence ne: "r \<noteq> Tip" "rootp r \<noteq> None" "inorder r \<noteq> []" by simp_all
    have "increment_down h (rootp r) = Some (Some (hd (inorder r)))"
      by (rule increment_down_leftmost[OF n(4) ne(1)])
    moreover have "(case inorder r @ after c of [] \<Rightarrow> H | y # ys \<Rightarrow> y) = hd (inorder r)"
      using ne(3) by (cases "inorder r") auto
    ultimately show ?thesis using n ne(2)
      by (simp add: avl_tree_increment_def get_def deref_def)
  next
    case Tip
    have dc: "distinct (before c @ x # after c)" using di io by auto
    have gx: "get right h (Some x) = Some None" "get parent h (Some x) = Some (hole_parent (Some H) c)"
      using n Tip by (simp_all add: get_def deref_def)
    have step: "avl_tree_increment h (Some x) = do {
        (x', y) \<leftarrow> increment_up h (Some x) (hole_parent (Some H) c);
        xr \<leftarrow> get right h x';
        if xr \<noteq> y then Some y else Some x' }"
      by (simp add: avl_tree_increment_def gx)
    show ?thesis
    proof (cases "lowest_left c")
      case (Some a)
      hence an: "after c \<noteq> []" "a = hd (after c)"
        by (auto simp: lowest_left_after split: if_splits)
      from increment_up_climb[OF wc Some dc] obtain x' where x':
        "increment_up h (Some x) (hole_parent (Some H) c) = Some (Some x', Some a)"
        "x' = x \<or> (\<exists>n' z. h x' = Some n' \<and> right n' = Some z \<and> z \<in> set (before c @ [x]))"
        by blast
      have "a \<in> set (after c)" using an by simp
      hence "a \<notin> set (before c @ [x])" using dc by auto
      hence "get right h (Some x') \<noteq> None \<and> get right h (Some x') \<noteq> Some (Some a)"
        using x'(2) n Tip by (auto simp: get_def deref_def)
      then obtain xr where xr: "get right h (Some x') = Some xr" "xr \<noteq> Some a" by auto
      have "(case inorder r @ after c of [] \<Rightarrow> H | y # ys \<Rightarrow> y) = a"
        using an Tip by (cases "after c") auto
      thus ?thesis using x'(1) xr by (simp add: step)
    next
      case None
      hence an: "after c = []" by (auto simp: lowest_left_after split: if_splits)
      from hd obtain nH where nH: "h H = Some nH" "parent nH = rootp ?t" "right nH = Some x"
        using io an Tip by (auto simp: header_ok_def split: option.splits)
      have xH: "x \<noteq> H" using Hn io by auto
      have up: "increment_up h (Some x) (hole_parent (Some H) c) = increment_up h (rootp ?t) (Some H)"
        by (rule increment_up_spine[OF wc None])
      have res: "(case inorder r @ after c of [] \<Rightarrow> H | y # ys \<Rightarrow> y) = H" using an Tip by simp
      show ?thesis
      proof (cases "c = []")
        case True
        have "increment_up h (Some H) (Some x) = Some (Some H, Some x)"
          using n Tip xH by (subst increment_up.simps) (simp add: get_def deref_def)
        hence "increment_up h (Some x) (Some H) = Some (Some H, Some x)"
          using nH True by (subst increment_up.simps) (simp add: get_def deref_def)
        moreover have "get right h (Some H) = Some (Some x)" using nH by (simp add: get_def deref_def)
        ultimately show ?thesis using True res by (simp add: step)
      next
        case False
        then obtain fr c' where c: "c = c' @ [fr]" by (cases c rule: rev_cases) auto
        obtain d a sib where fr: "fr = (d, a, sib)" by (cases fr)
        have d: "\<not> d"
        proof
          assume d
          hence "after c \<noteq> []" using c fr by (simp add: after_append)
          thus False using an by simp
        qed
        have rt: "rootp ?t = Some a" using c fr by (simp add: plug_append)
        have ab: "a \<in> set (before c)" using c fr d by (simp add: before_append)
        hence ax: "a \<noteq> x" "a \<noteq> H" using dc Hn io by auto
        have wa: "wfs h (Some H) (plug [fr] (plug c' (Br l x r)))"
          using w c by (simp add: plug_append)
        then obtain na where na: "h a = Some na" "right na = rootp (plug c' (Br l x r))"
          using fr d by (auto split: option.splits)
        have "rootp (plug c' (Br l x r)) \<noteq> None" by (cases c' rule: rev_cases) (auto simp: plug_append)
        moreover have "rootp (plug c' (Br l x r)) \<noteq> Some H"
        proof
          assume "rootp (plug c' (Br l x r)) = Some H"
          hence "H \<in> set (inorder (plug c' (Br l x r)))"
            by (cases "plug c' (Br l x r)") auto
          thus False using Hn c fr d by (auto simp: plug_append)
        qed
        ultimately obtain z where z: "right na = Some z" "z \<noteq> H" using na(2) by auto
        have "increment_up h (Some a) (Some H) = Some (Some a, Some H)"
          using nH ax by (subst increment_up.simps) (simp add: get_def deref_def)
        moreover have "get right h (Some a) = Some (Some z)" using na z by (simp add: get_def deref_def)
        ultimately show ?thesis using up rt z res by (simp add: step)
      qed
    qed
  qed
qed

lemma distinct_split_eq:
  "distinct (as @ y # bs) \<Longrightarrow> as @ y # bs = as' @ y # bs' \<Longrightarrow> bs = bs'"
  by (auto simp: append_eq_append_conv2 Cons_eq_append_conv append_eq_Cons_conv)

lemma traverse_suffix:
  fixes h :: "('k, 'v) store"
  assumes w: "wfs h (Some H) t" and hd: "header_ok h H t"
    and di: "distinct (inorder t)" and Hn: "H \<notin> set (inorder t)"
  shows "inorder t = xs @ ys
    \<Longrightarrow> traverse h (Some (case ys of [] \<Rightarrow> H | y # zs \<Rightarrow> y)) (Some H)
        = Some (map (\<lambda>a. val (the (h a))) ys)"
proof (induction ys arbitrary: xs)
  case Nil
  show ?case by (subst traverse.simps) simp
next
  case (Cons y ys)
  have yin: "y \<in> set (inorder t)" using Cons.prems by simp
  hence yH: "y \<noteq> H" using Hn by auto
  from wfs_dom[OF w yin] obtain n where n: "h y = Some n" by auto
  from focus[OF yin] obtain c l r where t: "t = plug c (Br l y r)" by blast
  have io: "inorder t = (before c @ inorder l) @ y # (inorder r @ after c)"
    by (simp add: t inorder_plug)
  have "inorder r @ after c = ys"
    by (rule distinct_split_eq[of "before c @ inorder l" y _ xs])
       (use di io Cons.prems in simp_all)
  hence nx: "avl_tree_increment h (Some y) = Some (Some (case ys of [] \<Rightarrow> H | z # zs \<Rightarrow> z))"
    using increment_succ[of h H c l y r] w hd di Hn by (simp add: t)
  have "inorder t = (xs @ [y]) @ ys" using Cons.prems by simp
  from Cons.IH[OF this]
  have "traverse h (Some (case ys of [] \<Rightarrow> H | z # zs \<Rightarrow> z)) (Some H)
      = Some (map (\<lambda>a. val (the (h a))) ys)" .
  thus ?case using yH n nx by (subst traverse.simps) (simp add: deref_def)
qed

text \<open>The walk from \<open>begin()\<close> to \<open>end()\<close> reads the entries in the order of the shape.\<close>

lemma inorder_walk_ok:
  fixes T :: "('k, 'v) avl_tree" and f :: "'k \<Rightarrow> 'o::linorder"
  assumes inv: "tree_inv f T t"
  shows "inorder_walk T = Some (map (\<lambda>a. val (the (store T a))) (inorder t))"
proof -
  from inv have w: "wfs (store T) (Some (header T)) t" and hd: "header_ok (store T) (header T) t"
    and Hn: "header T \<notin> set (inorder t)"
    and so: "sorted_wrt (\<lambda>a a'. f (key (store T) a) < f (key (store T) a')) (inorder t)"
    by (simp_all add: tree_inv_def)
  have di: "distinct (inorder t)" by (rule sorted_key_distinct[OF so])
  have b: "begin_it T = Some (Some (case inorder t of [] \<Rightarrow> header T | y # zs \<Rightarrow> y))"
    using hd by (cases "inorder t")
      (auto simp: begin_it_def header_ok_def get_def deref_def split: option.splits)
  show ?thesis
    using traverse_suffix[OF w hd di Hn, of "[]" "inorder t"] b
    by (simp add: inorder_walk_def end_it_def)
qed
section \<open>Sequences of insertions\<close>

lemma tree_inv_init: "tree_inv f (avl_tree_init H v0 c0) Tip"
  by (simp add: tree_inv_def avl_tree_init_def header_ok_def)

lemma vals_are_self: "wfs h p t \<Longrightarrow> vals_are (\<lambda>a. val (the (h a))) h t"
  unfolding vals_are_def list_all_iff using wfs_dom[of h p t] by fastforce

text \<open>One insertion into the plain tree, in terms of the map the tree denotes.\<close>

lemma avl_insert_step:
  fixes T :: "('k, 'v) avl_tree" and f :: "'k \<Rightarrow> 'o::linorder" and v :: "'k \<times> 'v"
  assumes inv: "tree_inv f T t" and es: "set (entries (store T) t) = set es"
  shows "\<exists>T' t' p b. avl_insert (\<lambda>x y. f x < f y) avl_policy v T = Some (T', p, b)
     \<and> tree_inv f T' t' \<and> set (entries (store T') t') = set (add_entry f v es)
     \<and> header T' = header T"
proof (cases "\<exists>a \<in> set (inorder t). f (key (store T) a) = f (fst v)")
  case True
  then obtain a where a: "a \<in> set (inorder t)" "f (key (store T) a) = f (fst v)" by blast
  have w: "wfs (store T) (Some (header T)) t" using inv by (simp add: tree_inv_def)
  have "val (the (store T a)) \<in> set (entries (store T) t)" using a(1) by (simp add: entries_def)
  moreover have "(f \<circ> fst) (val (the (store T a))) = f (fst v)" using a(2) by (simp add: key_def)
  ultimately have "f (fst v) \<in> (f \<circ> fst) ` set (entries (store T) t)"
    by (metis image_eqI)
  hence "add_entry f v es = es" using es by (simp add: add_entry_def)
  thus ?thesis using avl_insert_dup[OF inv a, of avl_policy] inv es by auto
next
  case False
  define g where "g = (\<lambda>a. val (the (store T a)))(alloc T := v)"
  from inv have w: "wfs (store T) (Some (header T)) t"
    and fr: "list_all (\<lambda>a. a < alloc T) (header T # inorder t)"
    by (simp_all add: tree_inv_def)
  have nin: "alloc T \<notin> set (inorder t)" using fr by (auto simp: list_all_iff)
  have q: "vals_are g (store T) t"
    using vals_are_self[OF w] nin unfolding vals_are_def list_all_iff g_def by auto
  have new: "\<forall>a \<in> set (inorder t). f (key (store T) a) \<noteq> f (fst v)" using False by simp
  have lq: "v = g (alloc T)" by (simp add: g_def)
  from avl_insert_new[OF inv avl_policy_ok[of g] q lq new]
  obtain T' t' xs ys where r:
    "avl_insert (\<lambda>x y. f x < f y) avl_policy v T = Some (T', Some (alloc T), True)"
    "tree_inv f T' t'" "vals_are g (store T') t'"
    "inorder t = xs @ ys" "inorder t' = xs @ alloc T # ys" "header T' = header T"
    by auto
  have e': "entries (store T') t' = map g (inorder t')"
    using r(3) unfolding vals_are_def list_all_iff entries_def
    by (auto simp: map_option_case split: option.splits)
  have e: "entries (store T) t = map g (inorder t)"
    using nin by (auto simp: entries_def g_def)
  have "f (fst v) \<notin> (f \<circ> fst) ` set (entries (store T) t)"
    using False by (auto simp: entries_def key_def)
  hence "add_entry f v es = es @ [v]" using es by (simp add: add_entry_def)
  moreover have "set (entries (store T') t') = insert v (set (entries (store T) t))"
    unfolding e e' r(4,5) by (auto simp: g_def)
  ultimately show ?thesis using r(1,2,6) es by auto
qed

lemma insert_all_ok:
  fixes T :: "('k, 'v) avl_tree" and f :: "'k \<Rightarrow> 'o::linorder"
  shows "tree_inv f T t \<Longrightarrow> set (entries (store T) t) = set es
    \<Longrightarrow> \<exists>T' t'. insert_all (\<lambda>x y. f x < f y) avl_policy vs T = Some T'
        \<and> tree_inv f T' t' \<and> set (entries (store T') t') = set (fold (add_entry f) vs es)
        \<and> header T' = header T"
proof (induction vs arbitrary: T t es)
  case Nil
  thus ?case by auto
next
  case (Cons v vs)
  from avl_insert_step[OF Cons.prems, of v] obtain T1 t1 p b where s:
    "avl_insert (\<lambda>x y. f x < f y) avl_policy v T = Some (T1, p, b)"
    "tree_inv f T1 t1" "set (entries (store T1) t1) = set (add_entry f v es)"
    "header T1 = header T"
    by blast
  from Cons.IH[OF s(2,3)] s(1,4) show ?case by auto
qed
section \<open>The rotations of one rebalancing step\<close>

lemma balances_only_refl: "balances_only h h"
  by (simp add: balances_only_def)

lemma balances_only_trans: "balances_only h h1 \<Longrightarrow> balances_only h1 h2 \<Longrightarrow> balances_only h h2"
  by (simp add: balances_only_def)

lemma modify_balance_only:
  "modify p (\<lambda>n. n\<lparr>balance := c\<rparr>) h = Some h1 \<Longrightarrow> balances_only h h1"
  by (cases p) (auto simp: modify_def deref_def balances_only_def links_def split: option.splits)

lemma balances_only_left: "balances_only h h1 \<Longrightarrow> get left h1 p = get left h p"
proof -
  assume b: "balances_only h h1"
  show ?thesis
  proof (cases p)
    case None thus ?thesis by (simp add: get_def deref_def)
  next
    case (Some a)
    have "links h1 a = links h a" using b by (simp add: balances_only_def)
    thus ?thesis using Some by (cases "h a"; cases "h1 a") (auto simp: get_def deref_def links_def)
  qed
qed

lemma balances_only_right: "balances_only h h1 \<Longrightarrow> get right h1 p = get right h p"
proof -
  assume b: "balances_only h h1"
  show ?thesis
  proof (cases p)
    case None thus ?thesis by (simp add: get_def deref_def)
  next
    case (Some a)
    have "links h1 a = links h a" using b by (simp add: balances_only_def)
    thus ?thesis using Some by (cases "h a"; cases "h1 a") (auto simp: get_def deref_def links_def)
  qed
qed

lemma two_balances:
  "do { h \<leftarrow> modify u (\<lambda>n. n\<lparr>balance := c\<rparr>) h; modify r (\<lambda>n. n\<lparr>balance := c'\<rparr>) h } = Some h1
   \<Longrightarrow> balances_only h h1"
  by (auto simp: bind_eq_Some_conv intro: balances_only_trans modify_balance_only)

text \<open>
  A successful \<open>_rebalance\<close> is its balance assignments followed by exactly the
  rotation calls that \<open>rebalance_rotations\<close> lists.
\<close>

lemma rebalance_runs:
  assumes r: "rebalance pol u H h = Some h'"
  shows "\<exists>rs hb. rebalance_rotations u h = Some rs \<and> balances_only h hb
           \<and> run_rotations pol H rs hb = Some h'"
proof -
  from r obtain b where b: "get balance h u = Some b"
    by (auto simp: rebalance_def bind_eq_Some_conv)
  consider "b = 2" | "b = - 2" | "b \<noteq> 2" "b \<noteq> - 2" by blast
  thus ?thesis
  proof cases
    case 3
    hence "rebalance pol u H h = Some h" using b by (auto simp: rebalance_def)
    moreover have "rebalance_rotations u h = Some []" using b 3 by (simp add: rebalance_rotations_def)
    ultimately show ?thesis using r balances_only_refl[of h] by auto
  next
    case 1
    from r b 1 obtain rt rb where rt: "get right h u = Some rt" "get balance h rt = Some rb"
      by (auto simp: rebalance_def bind_eq_Some_conv)
    show ?thesis
    proof (cases "rb = 1")
      case True
      from r b 1 rt True obtain h1 h2 where m:
        "modify u (\<lambda>n. n\<lparr>balance := 0\<rparr>) h = Some h1"
        "modify rt (\<lambda>n. n\<lparr>balance := 0\<rparr>) h1 = Some h2"
        "rotate_left pol u H h2 = Some h'"
        by (auto simp: rebalance_def bind_eq_Some_conv)
      have "balances_only h h2"
        using balances_only_trans[OF modify_balance_only[OF m(1)] modify_balance_only[OF m(2)]] .
      moreover have "rebalance_rotations u h = Some [(Rot_left, u)]"
        using b 1 rt True by (simp add: rebalance_rotations_def)
      ultimately show ?thesis using m(3) by auto
    next
      case False
      from r b 1 rt False obtain rl0 rlb h1 rl h2 where m0:
        "get left h rt = Some rl0" "get balance h rl0 = Some rlb"
        "(if rlb = 1 then do {
            h \<leftarrow> modify u (\<lambda>n. n\<lparr>balance := - 1\<rparr>) h;
            modify rt (\<lambda>n. n\<lparr>balance := 0\<rparr>) h }
          else if rlb = 0 then do {
            h \<leftarrow> modify u (\<lambda>n. n\<lparr>balance := 0\<rparr>) h;
            modify rt (\<lambda>n. n\<lparr>balance := 0\<rparr>) h }
          else if rlb = - 1 then do {
            h \<leftarrow> modify u (\<lambda>n. n\<lparr>balance := 0\<rparr>) h;
            modify rt (\<lambda>n. n\<lparr>balance := 1\<rparr>) h }
          else Some h) = Some h1"
        "get left h1 rt = Some rl"
        "modify rl (\<lambda>n. n\<lparr>balance := 0\<rparr>) h1 = Some h2"
        "rotate_right pol rt H h2 \<bind> rotate_left pol u H = Some h'"
        unfolding rebalance_def by (simp add: bind_eq_Some_conv) blast
      have "balances_only h h1"
        using m0(3) two_balances[of u _ h rt _ h1] balances_only_refl[of h]
        by (simp split: if_splits)
      note m = this m0(4,5,6)
      have "balances_only h h2"
        using balances_only_trans[OF m(1) modify_balance_only[OF m(3)]] .
      moreover have "rebalance_rotations u h = Some [(Rot_right, rt), (Rot_left, u)]"
        using b 1 rt False by (simp add: rebalance_rotations_def)
      ultimately show ?thesis using m(4)
        by (intro exI[of _ h2] exI[of _ "[(_, _), (_, _)]"]) (auto simp: bind_eq_Some_conv)
    qed
  next
    case 2
    from r b 2 obtain lt lb where lt: "get left h u = Some lt" "get balance h lt = Some lb"
      by (auto simp: rebalance_def bind_eq_Some_conv)
    show ?thesis
    proof (cases "lb = - 1")
      case True
      from r b 2 lt True obtain h1 h2 where m:
        "modify u (\<lambda>n. n\<lparr>balance := 0\<rparr>) h = Some h1"
        "modify lt (\<lambda>n. n\<lparr>balance := 0\<rparr>) h1 = Some h2"
        "rotate_right pol u H h2 = Some h'"
        by (auto simp: rebalance_def bind_eq_Some_conv)
      have "balances_only h h2"
        using balances_only_trans[OF modify_balance_only[OF m(1)] modify_balance_only[OF m(2)]] .
      moreover have "rebalance_rotations u h = Some [(Rot_right, u)]"
        using b 2 lt True by (simp add: rebalance_rotations_def)
      ultimately show ?thesis using m(3) by auto
    next
      case False
      from r b 2 lt False obtain lr0 lrb h1 lr h2 where m0:
        "get right h lt = Some lr0" "get balance h lr0 = Some lrb"
        "(if lrb = 1 then do {
            h \<leftarrow> modify u (\<lambda>n. n\<lparr>balance := 0\<rparr>) h;
            modify lt (\<lambda>n. n\<lparr>balance := - 1\<rparr>) h }
          else if lrb = 0 then do {
            h \<leftarrow> modify u (\<lambda>n. n\<lparr>balance := 0\<rparr>) h;
            modify lt (\<lambda>n. n\<lparr>balance := 0\<rparr>) h }
          else if lrb = - 1 then do {
            h \<leftarrow> modify u (\<lambda>n. n\<lparr>balance := 1\<rparr>) h;
            modify lt (\<lambda>n. n\<lparr>balance := 0\<rparr>) h }
          else Some h) = Some h1"
        "get right h1 lt = Some lr"
        "modify lr (\<lambda>n. n\<lparr>balance := 0\<rparr>) h1 = Some h2"
        "rotate_left pol lt H h2 \<bind> rotate_right pol u H = Some h'"
        unfolding rebalance_def by (simp add: bind_eq_Some_conv) blast
      have "balances_only h h1"
        using m0(3) two_balances[of u _ h lt _ h1] balances_only_refl[of h]
        by (simp split: if_splits)
      note m = this m0(4,5,6)
      have "balances_only h h2"
        using balances_only_trans[OF m(1) modify_balance_only[OF m(3)]] .
      moreover have "rebalance_rotations u h = Some [(Rot_left, lt), (Rot_right, u)]"
        using b 2 lt False by (simp add: rebalance_rotations_def)
      ultimately show ?thesis using m(4)
        by (intro exI[of _ h2] exI[of _ "[(_, _), (_, _)]"]) (auto simp: bind_eq_Some_conv)
    qed
  qed
qed

lemma rebalance_rotations_cases:
  "rebalance_rotations u h = Some rs \<Longrightarrow>
     rs = [] \<or> rs = [(Rot_left, u)] \<or> rs = [(Rot_right, u)]
     \<or> (\<exists>r. get right h u = Some r \<and> rs = [(Rot_right, r), (Rot_left, u)])
     \<or> (\<exists>l. get left h u = Some l \<and> rs = [(Rot_left, l), (Rot_right, u)])"
  by (auto simp: rebalance_rotations_def bind_eq_Some_conv split: if_splits)

lemma keys_fold_add:
  "(f \<circ> fst) ` set (fold (add_entry f) vs es) = (f \<circ> fst) ` (set es \<union> set vs)"
proof (induction vs arbitrary: es)
  case Nil
  show ?case by simp
next
  case (Cons v vs)
  have "(f \<circ> fst) ` set (add_entry f v es) = insert (f (fst v)) ((f \<circ> fst) ` set es)"
    by (auto simp: add_entry_def)
  thus ?case using Cons.IH[of "add_entry f v es"] by (auto simp: image_Un)
qed

lemma built_tree:
  fixes f :: "'k \<Rightarrow> 'o::linorder" and vs :: "('k \<times> 'v) list"
  shows "\<exists>T t. insert_all (\<lambda>x y. f x < f y) avl_policy vs (avl_tree_init H v0 c0) = Some T
     \<and> tree_inv f T t \<and> set (entries (store T) t) = set (contents f vs) \<and> header T = H"
  using insert_all_ok[OF tree_inv_init[of f H v0 c0], of "[]" vs]
  by (auto simp: entries_def contents_def avl_tree_init_def)
section \<open>The stack of a query\<close>





section \<open>The balance invariant, duplicates and the in-order walk\<close>

text \<open>
  Claim C3 (the AVL invariant after every insertion; at most two rotations).
  Whatever entries are inserted into an empty tree, the store then links the
  nodes as some shape \<open>t\<close> below the header, and at every node of \<open>t\<close> the stored
  balance is the height of the right subtree minus the height of the left
  subtree and lies between \<open>-1\<close> and \<open>1\<close>. One rebalancing step is its balance
  assignments followed by at most two rotation calls: none, one at the
  candidate, or two, the first at the candidate's child on the heavy side
  and the second at the candidate.
\<close>

theorem insert_keeps_balance:
  fixes f :: "'k \<Rightarrow> 'o::linorder" and vs :: "('k \<times> 'v) list"
    and pol :: "('k2, 'v2) policy"
  shows "(\<exists>T t. insert_all (\<lambda>x y. f x < f y) avl_policy vs (avl_tree_init H hv cnt) = Some T
            \<and> get parent (store T) (Some (header T)) = Some (rootp t)
            \<and> wfs (store T) (Some (header T)) t \<and> avl (bal (store T)) t)
       \<and> (\<forall>u G h h'. rebalance pol u G h = Some h' \<longrightarrow>
            (\<exists>rs hb. rebalance_rotations u h = Some rs \<and> balances_only h hb
                \<and> run_rotations pol G rs hb = Some h'
                \<and> (rs = [] \<or> rs = [(Rot_left, u)] \<or> rs = [(Rot_right, u)]
                    \<or> (\<exists>r. get right h u = Some r \<and> rs = [(Rot_right, r), (Rot_left, u)])
                    \<or> (\<exists>l. get left h u = Some l \<and> rs = [(Rot_left, l), (Rot_right, u)]))))"
proof (intro conjI allI impI)
  from built_tree[of f vs H hv cnt] obtain T t where
    b: "insert_all (\<lambda>x y. f x < f y) avl_policy vs (avl_tree_init H hv cnt) = Some T"
      "tree_inv f T t"
    by blast
  from b(2) have "get parent (store T) (Some (header T)) = Some (rootp t)"
    by (auto simp: tree_inv_def header_ok_def get_def deref_def split: option.splits)
  thus "\<exists>T t. insert_all (\<lambda>x y. f x < f y) avl_policy vs (avl_tree_init H hv cnt) = Some T
            \<and> get parent (store T) (Some (header T)) = Some (rootp t)
            \<and> wfs (store T) (Some (header T)) t \<and> avl (bal (store T)) t"
    using b by (auto simp: tree_inv_def)
next
  fix u G and h h' :: "('k2, 'v2) store"
  assume "rebalance pol u G h = Some h'"
  from rebalance_runs[OF this] obtain rs hb where
    r: "rebalance_rotations u h = Some rs" "balances_only h hb"
      "run_rotations pol G rs hb = Some h'"
    by blast
  from rebalance_rotations_cases[OF r(1)] r
  show "\<exists>rs hb. rebalance_rotations u h = Some rs \<and> balances_only h hb
                \<and> run_rotations pol G rs hb = Some h'
                \<and> (rs = [] \<or> rs = [(Rot_left, u)] \<or> rs = [(Rot_right, u)]
                    \<or> (\<exists>r. get right h u = Some r \<and> rs = [(Rot_right, r), (Rot_left, u)])
                    \<or> (\<exists>l. get left h u = Some l \<and> rs = [(Rot_left, l), (Rot_right, u)]))"
    by blast
qed

theorem insert_keeps_balance_witness:
  "(\<exists>T t. insert_all (\<lambda>x y. id x < id y) avl_policy [(1 :: int, ()), (3, ()), (2, ())]
              (avl_tree_init 0 (0, ()) 0) = Some T
            \<and> get parent (store T) (Some (header T)) = Some (rootp t)
            \<and> wfs (store T) (Some (header T)) t \<and> avl (bal (store T)) t)
   \<and> (\<exists>h'. rebalance avl_policy (Some 1) 0 right_left_store = Some h'
        \<and> (\<exists>rs hb. rebalance_rotations (Some 1) right_left_store = Some rs
              \<and> balances_only right_left_store hb
              \<and> run_rotations avl_policy 0 rs hb = Some h'
              \<and> rs = [(Rot_right, Some 2), (Rot_left, Some 1)]))"
proof -
  note ikb = insert_keeps_balance[where f = "id :: int \<Rightarrow> int"
      and vs = "[(1, ()), (3, ()), (2, ())]" and H = 0 and hv = "(0, ())" and cnt = 0
      and pol = "avl_policy :: (int, unit) policy"]
  have "\<not> Option.is_none (rebalance avl_policy (Some 1) 0 right_left_store)" by code_simp
  then obtain h' where h': "rebalance avl_policy (Some 1) 0 right_left_store = Some h'"
    by (auto simp: Option.is_none_def)
  have rs: "rebalance_rotations (Some 1) right_left_store = Some [(Rot_right, Some 2), (Rot_left, Some 1)]"
    by code_simp
  from ikb h' obtain rs' hb where
    "rebalance_rotations (Some 1) right_left_store = Some rs'" "balances_only right_left_store hb"
    "run_rotations avl_policy 0 rs' hb = Some h'"
    by blast
  thus ?thesis using ikb h' rs by auto
qed

theorem double_rotation_at_child:
  "do { T \<leftarrow> insert_all (<) avl_policy [(1 :: int, ()), (3, ())] (avl_tree_init 0 (0, ()) 0);
        x \<leftarrow> get parent (store T) (Some (header T));
        (y, unbalanced, cmp) \<leftarrow> insert_loop (<) (store T) 2 x (end_it T) (end_it T) True;
        let leaf = Some (alloc T);
        let h = (store T)(alloc T \<mapsto>
                  \<lparr>parent = y, left = None, right = None, balance = 0, val = (2, ())\<rparr>);
        h \<leftarrow> link_leaf cmp y leaf (header T) h;
        h \<leftarrow> update avl_policy leaf unbalanced (header T) h;
        rs \<leftarrow> rebalance_rotations unbalanced h;
        Some (unbalanced, rs, map h [0, 1, 2, 3] = map right_left_store [0, 1, 2, 3]) }
   = Some (Some 1, [(Rot_right, Some 2), (Rot_left, Some 1)], True)"
  by code_simp

text \<open>
  \<open>avl_tree::insert\<close> with the plain policies rejects a duplicate key and changes
  nothing. When the key of \<open>v\<close> is among the keys inserted so far, it gives back
  the very same tree (size, links and values), the flag \<open>false\<close> and the address
  of the stored entry with that key, which is one of the entries inserted
  first for their keys. The ordering compares the keys through a projection
  \<open>f\<close>.
\<close>

theorem duplicate_insert_rejected:
  fixes f :: "'k \<Rightarrow> 'o::linorder" and vs :: "('k \<times> 'v) list"
  assumes "f (fst v) \<in> set (map (f \<circ> fst) vs)"
  shows "\<exists>T a n. insert_all (\<lambda>x y. f x < f y) avl_policy vs (avl_tree_init H hv cnt) = Some T
      \<and> avl_insert (\<lambda>x y. f x < f y) avl_policy v T = Some (T, Some a, False)
      \<and> store T a = Some n \<and> f (fst (val n)) = f (fst v) \<and> val n \<in> set (contents f vs)"
proof -
  from built_tree[of f vs H hv cnt] obtain T t where
    b: "insert_all (\<lambda>x y. f x < f y) avl_policy vs (avl_tree_init H hv cnt) = Some T"
      "tree_inv f T t" "set (entries (store T) t) = set (contents f vs)"
    by blast
  have "(f \<circ> fst) ` set (contents f vs) = (f \<circ> fst) ` set vs"
    using keys_fold_add[of f vs "[]"] by (simp add: contents_def)
  hence "f (fst v) \<in> (f \<circ> fst) ` set (entries (store T) t)" using assms b(3) by simp
  then obtain a where a: "a \<in> set (inorder t)" "f (fst (val (the (store T a)))) = f (fst v)"
    by (auto simp: entries_def)
  have w: "wfs (store T) (Some (header T)) t" using b(2) by (simp add: tree_inv_def)
  from wfs_dom[OF w a(1)] obtain n where n: "store T a = Some n" by auto
  have "val n \<in> set (contents f vs)" using a(1) n b(3)[symmetric] by (force simp: entries_def)
  moreover have "avl_insert (\<lambda>x y. f x < f y) avl_policy v T = Some (T, Some a, False)"
    by (rule avl_insert_dup[OF b(2) a(1)]) (use a(2) in \<open>simp add: key_def\<close>)
  ultimately show ?thesis using b(1) n a(2) by auto
qed

theorem duplicate_insert_rejected_witness:
  "\<exists>T a n. insert_all (\<lambda>x y. fst x < fst y) avl_policy
        [((1 :: int, 5 :: int), ''A''), ((2, 6), ''B'')] (avl_tree_init 0 ((0, 0), []) 0) = Some T
      \<and> avl_insert (\<lambda>x y. fst x < fst y) avl_policy ((1, 7), ''C'') T = Some (T, Some a, False)
      \<and> store T a = Some n \<and> fst (fst (val n)) = fst (fst ((1 :: int, 7 :: int), ''C''))
      \<and> val n \<in> set (contents fst [((1, 5), ''A''), ((2, 6), ''B'')])"
  using duplicate_insert_rejected[where f = "fst :: int \<times> int \<Rightarrow> int"
      and v = "((1, 7), ''C'')" and vs = "[((1, 5), ''A''), ((2, 6), ''B'')]"
      and H = 0 and hv = "((0, 0), [])" and cnt = 0]
  by simp

text \<open>
  Claim C8 (the walk from \<open>begin()\<close> to \<open>end()\<close> is strictly increasing).
  Whatever entries are inserted into an empty tree, \<open>++\<close> from \<open>begin()\<close> reaches
  \<open>end()\<close>, the keys it reads are strictly increasing (so no two entries share
  a key), and the entries it reads are those inserted first for their keys.
\<close>

theorem inorder_walk_sorted:
  fixes f :: "'k \<Rightarrow> 'o::linorder" and vs :: "('k \<times> 'v) list"
  shows "\<exists>T es. insert_all (\<lambda>x y. f x < f y) avl_policy vs (avl_tree_init H hv cnt) = Some T
      \<and> inorder_walk T = Some es
      \<and> sorted_wrt (\<lambda>x y. f (fst x) < f (fst y)) es
      \<and> set es = set (contents f vs)"
proof -
  from built_tree[of f vs H hv cnt] obtain T t where
    b: "insert_all (\<lambda>x y. f x < f y) avl_policy vs (avl_tree_init H hv cnt) = Some T"
      "tree_inv f T t" "set (entries (store T) t) = set (contents f vs)"
    by blast
  have wk: "inorder_walk T = Some (entries (store T) t)"
    using inorder_walk_ok[OF b(2)] by (simp add: entries_def)
  have "sorted_wrt (\<lambda>a a'. f (key (store T) a) < f (key (store T) a')) (inorder t)"
    using b(2) by (simp add: tree_inv_def)
  hence "sorted_wrt (\<lambda>x y. f (fst x) < f (fst y)) (entries (store T) t)"
    by (simp add: entries_def sorted_wrt_map key_def)
  thus ?thesis using b(1,3) wk by blast
qed

theorem inorder_walk_sorted_witness:
  "\<exists>T es. insert_all (\<lambda>x y. id x < id y) avl_policy
        [(3 :: int, ''c''), (1, ''a''), (2, ''b''), (1, ''d'')] (avl_tree_init 0 (0, []) 0) = Some T
      \<and> inorder_walk T = Some es
      \<and> sorted_wrt (\<lambda>x y. id (fst x) < id (fst y)) es
      \<and> set es = set (contents id [(3, ''c''), (1, ''a''), (2, ''b''), (1, ''d'')])"
  by (rule inorder_walk_sorted)

section \<open>The query stack stays within its capacity\<close>



section \<open>Runs on concrete trees\<close>

text \<open>
  Claim C2 (augmentation after every insertion, the first one included). The
  updater of the interval tree walks from the new leaf until it meets the
  root. On the first insertion the leaf is the root, its parent is the header,
  so the walk passes through the header and merges the header's
  value-initialised \<open>min = 0\<close> and \<open>max = 0\<close> into the root. After inserting
  \<open>[1,5)\<close> into the empty tree the root stores \<open>min = 0\<close>, while the least low
  endpoint of its subtree is \<open>1\<close>.
\<close>

theorem first_insert_min_wrong:
  "do { t \<leftarrow> interval_tree_init 0 () 0;
        t \<leftarrow> interval_insert ((1, 5), ()) t;
        root \<leftarrow> get parent (store (base t)) (Some (header (base t)));
        n \<leftarrow> deref (store (base t)) root;
        Some (fst (val n), left n, right n, node_min n, node_max n) }
   = Some ((1, 5), None, None, 0, 5)"
  by code_simp

text \<open>
  Claim C5 (queries on an empty tree end normally). \<open>equal_range\<close> on a tree
  without entries passes the null root to the iterator, whose \<open>_forward\<close> pops
  it and reads its \<open>_left\<close>: the query does not return.
\<close>

theorem empty_query_faults:
  "do { t \<leftarrow> interval_tree_init 0 () 0; equal_range t (1, 2) } = None"
  by code_simp

text \<open>
  Claim C6 (a copy shares no link with its source, the empty tree included).
  The copy constructor copies the header, and repairs the three links only
  when the source has a root. The copy of the empty tree at address \<open>0\<close> is a
  tree at address \<open>1\<close> whose \<open>_left\<close> and \<open>_right\<close> still point to the source's
  header.
\<close>

theorem copy_empty_links_source:
  "do { let t = avl_tree_init 0 (0 :: int, ()) 0;
        c \<leftarrow> avl_tree_copy t;
        n \<leftarrow> deref (store c) (Some (header c));
        Some (header t, header c, parent n, left n, right n) }
   = Some (0, 1, None, Some 0, Some 0)"
  by code_simp

text \<open>
  Claim C7 (insert returns the handle and the flag, for both trees).
  \<open>interval_tree::insert\<close> is declared \<open>void\<close>: what \<open>avl_tree::insert\<close> reports
  is dropped. Inserting \<open>[1,7)\<close> after \<open>[1,5)\<close> gives back the unchanged tree and
  nothing else, although the base insertion reported the entry at address \<open>1\<close>
  and \<open>false\<close>.
\<close>

theorem interval_insert_reports_nothing:
  "do { t \<leftarrow> interval_tree_init 0 (0 :: nat) 0;
        t \<leftarrow> interval_insert ((1, 5), 1) t;
        r \<leftarrow> interval_insert ((1, 7), 2) t;
        (b, j, inserted) \<leftarrow> avl_insert Interval_Compare interval_policy
           ((1, 7), \<lparr>max_val = 7, min_val = 1, data = 2\<rparr>) (base t);
        Some (map (store (base r)) [0, 1, 2] = map (store (base t)) [0, 1, 2],
              node_count (base r) = node_count (base t), j, inserted) }
   = Some (True, True, Some 1, False)"
  by code_simp

text \<open>
  Claim C4 (a duplicate key leaves the tree unchanged and is reported with
  the flag \<open>false\<close> and the handle of the stored entry, in the interval tree
  too). After \<open>[1,5)\<close> and \<open>[2,6)\<close>, inserting \<open>[2,9)\<close> into the interval tree leaves
  every node, the header and the size as they were, but \<open>interval_tree::insert\<close>
  gives back nothing: the answer of the base insertion, the entry at address
  \<open>2\<close> and \<open>false\<close>, never reaches the caller.
\<close>

theorem interval_duplicate_unreported:
  "do { t \<leftarrow> interval_tree_init 0 ''-'' 0;
        t \<leftarrow> interval_insert ((1, 5), ''A'') t;
        t \<leftarrow> interval_insert ((2, 6), ''B'') t;
        r \<leftarrow> interval_insert ((2, 9), ''C'') t;
        (b, j, inserted) \<leftarrow> avl_insert Interval_Compare interval_policy
           ((2, 9), \<lparr>max_val = 9, min_val = 2, data = ''C''\<rparr>) (base t);
        n \<leftarrow> deref (store (base r)) j;
        Some (map (store (base r)) [0, 1, 2, 3] = map (store (base t)) [0, 1, 2, 3],
              node_count (base r) = node_count (base t), alloc (base r) = alloc (base t),
              j, inserted, fst (val n), data (snd (val n))) }
   = Some (True, True, True, Some 2, False, (2, 6), ''B'')"
  by code_simp

text \<open>
  Claim C1 (an overlap query returns exactly the overlapping entries, for
  every tree built by insertions). On the tree of four entries the queries
  \<open>(4,5)\<close>, \<open>(0,10)\<close> and \<open>(6,8)\<close> return what the claim says. On the tree built by
  no insertion the root is \<open>NULL\<close>; the first turn of \<open>_forward\<close> reads through
  it, and the query \<open>(0,10)\<close>, which should return the empty sequence, does
  not return.
\<close>

theorem overlap_query_on_empty_tree:
  "do { e \<leftarrow> interval_tree_init 0 ''-'' 0;
        t \<leftarrow> four_intervals;
        root \<leftarrow> get parent (store (base e)) (Some (header (base e)));
        Some (root,
              forward_step (store (base e))
                \<lparr>it_node = None, it_interval = (0, 10), it_end = Some 0, it_stack = [root]\<rparr>
                root [],
              query e (0, 10), query t (4, 5), query t (0, 10), query t (6, 8)) }
   = Some (None, Inl Bad_pointer, None,
           Some [((2, 6), ''B''), ((1, 5), ''A'')],
           Some [((2, 6), ''B''), ((8, 9), ''C''), ((3, 4), ''D''), ((1, 5), ''A'')],
           Some [])"
  by code_simp

text \<open>
  Claim C10 (the point query reports exactly the intervals with
  \<open>lo < k < hi\<close>, for every tree). \<open>equal_range(k)\<close> is \<open>equal_range\<close> of the
  interval \<open>(k,k)\<close>. On the tree of four entries the keys \<open>5\<close>, \<open>2\<close> and \<open>3\<close> get
  the entries the claim says, and no entry with an endpoint equal to the key.
  On the empty tree \<open>equal_range(3)\<close> reads through the \<open>NULL\<close> root and does not
  return, where the claim has the empty result.
\<close>

theorem point_query_on_empty_tree:
  "do { e \<leftarrow> interval_tree_init 0 ''-'' 0;
        t \<leftarrow> four_intervals;
        Some (equal_range_key e 3 = equal_range e (3, 3), equal_range_key e 3, query_key e 3,
              query_key t 5, query_key t 2, query_key t 3) }
   = Some (True, None, None,
           Some [((2, 6), ''B'')], Some [((1, 5), ''A'')],
           Some [((2, 6), ''B''), ((1, 5), ''A'')])"
  by code_simp

end
